theory Spec2Isabelle
  imports Main
begin

section \<open>The hybrid RAM and disk queue of ultraqueue.c\<close>

text \<open>
  The C file keeps one process-wide circular buffer of string pointers
  (\<open>ram_buffer\<close>, \<open>ram_start\<close>, \<open>ram_end\<close>) and one text file per path.  The
  model passes this state explicitly: the three statics and the file system
  form the record \<open>world\<close>; every operation takes a world and returns the new
  one together with its C return code.

  Conventions of the embedding:
  \<^item> a C string is the list of its bytes before the terminator;
  \<^item> a slot of \<open>ram_buffer\<close> is \<open>None\<close> for \<open>NULL\<close>;
  \<^item> \<open>ram_start\<close> and \<open>ram_end\<close> are C \<open>int\<close>s that only ever hold values
    below \<open>2 * RAM_BUFFER_CAPACITY\<close>, so they are natural numbers and the
    \<open>%\<close> of the source is \<open>mod\<close>;
  \<^item> a file is its byte content, \<open>None\<close> when no file exists at the path;
  \<^item> the outcome of the library calls that can fail for reasons outside the
    program is given by the record \<open>io_env\<close>;
  \<^item> a call that has no defined result in C (a write past the output
    buffer, a read through \<open>NULL\<close>, a loop that does not end) is \<open>None\<close>;
  \<^item> the lock macros serialise whole calls and are not modelled: a call is
    one atomic step.
\<close>

subsection \<open>Constants\<close>

definition MAX_LINE :: nat where
  "MAX_LINE = 4096"

definition RAM_BUFFER_CAPACITY :: nat where
  "RAM_BUFFER_CAPACITY = 10000"

definition newline :: char where
  "newline = CHR 0x0A"

definition NUL :: char where
  "NUL = CHR 0x00"

subsection \<open>State and environment\<close>

type_synonym path = string

record world =
  ram_buffer :: "nat \<Rightarrow> string option"
  ram_start :: nat
  ram_end :: nat
  files :: "path \<Rightarrow> string option"

text \<open>
  \<open>strdup_ok\<close>: the allocation in \<open>push_ram\<close> succeeds.
  \<open>fopen_r_ok\<close>, \<open>fopen_a_ok\<close>, \<open>fopen_w_ok\<close>: opening the path in mode
  \<open>"r"\<close>, \<open>"a"\<close>, \<open>"w"\<close> is not refused by the system (mode \<open>"r"\<close> fails on
  a missing file in any case).
  \<open>tmpfile_ok\<close>: \<open>tmpfile()\<close> succeeds.
  \<open>write_limit\<close> describes the disk under \<open>spill_to_disk\<close>, which writes
  through a buffered stream: \<open>None\<close> when every call of \<open>fputs\<close>/\<open>fputc\<close>
  succeeds and every byte reaches the file; \<open>Some (n, m)\<close> when the first \<open>n\<close>
  calls succeed and the next one returns \<open>EOF\<close>, and only the first \<open>m\<close> of
  the bytes handed to the stream reach the file, the others being lost in
  the stream buffer or by the flush inside \<open>fclose\<close>, whose result the source
  does not test.  The writes of \<open>ultraqueue_pop\<close>, whose results the source
  does not test either, are taken to succeed.
\<close>

record io_env =
  strdup_ok :: bool
  fopen_r_ok :: bool
  fopen_a_ok :: bool
  fopen_w_ok :: bool
  tmpfile_ok :: bool
  write_limit :: "(nat \<times> nat) option"

definition init_world :: world where
  "init_world = \<lparr>ram_buffer = (\<lambda>i. None), ram_start = 0, ram_end = 0, files = (\<lambda>p. None)\<rparr>"

definition ok_env :: io_env where
  "ok_env = \<lparr>strdup_ok = True, fopen_r_ok = True, fopen_a_ok = True,
     fopen_w_ok = True, tmpfile_ok = True, write_limit = None\<rparr>"

subsection \<open>C library calls\<close>

text \<open>The C string held in a byte buffer: the bytes before the first NUL.\<close>

definition cstr :: "string \<Rightarrow> string" where
  "cstr buf = takeWhile (\<lambda>c. c \<noteq> NUL) buf"

text \<open>
  \<open>strncpy(out_buf, src, buf_size - 1); out_buf[buf_size - 1] = '\0'\<close>, read
  back as a C string.  \<open>buf_size\<close> is a \<open>size_t\<close>: for \<open>buf_size = 0\<close> the
  subtraction wraps to \<open>SIZE_MAX\<close>, \<open>strncpy\<close> fills that many bytes and the
  store lands outside the buffer, so there is no result.
\<close>

definition copy_out :: "nat \<Rightarrow> string \<Rightarrow> string option" where
  "copy_out buf_size src =
     (if buf_size = 0 then None else Some (take (buf_size - 1) src))"

text \<open>
  \<open>fgets(line, n, fp)\<close> on the unread rest \<open>fp\<close> of a stream: \<open>None\<close> at end
  of file, else the bytes put into \<open>line\<close> (at most \<open>n - 1\<close>, ending after the
  first newline) and the rest of the stream.
\<close>

fun fgets_take :: "nat \<Rightarrow> string \<Rightarrow> string \<times> string" where
  "fgets_take 0 cs = ([], cs)"
| "fgets_take (Suc k) [] = ([], [])"
| "fgets_take (Suc k) (c # cs) =
     (if c = newline then ([c], cs)
      else (c # fst (fgets_take k cs), snd (fgets_take k cs)))"

definition fgets :: "nat \<Rightarrow> string \<Rightarrow> (string \<times> string) option" where
  "fgets n fp = (if fp = [] then None else Some (fgets_take (n - 1) fp))"

text \<open>Appending bytes to the file at a path (created when missing).\<close>

definition file_bytes :: "world \<Rightarrow> path \<Rightarrow> string" where
  "file_bytes s p = (case files s p of None \<Rightarrow> [] | Some c \<Rightarrow> c)"

definition fappend :: "path \<Rightarrow> string \<Rightarrow> world \<Rightarrow> world" where
  "fappend p bytes s = s\<lparr>files := (files s)(p \<mapsto> file_bytes s p @ bytes)\<rparr>"

subsection \<open>RAM tier\<close>

definition is_ram_full :: "world \<Rightarrow> bool" where
  "is_ram_full s \<longleftrightarrow> (ram_end s + 1) mod RAM_BUFFER_CAPACITY = ram_start s"

definition is_ram_empty :: "world \<Rightarrow> bool" where
  "is_ram_empty s \<longleftrightarrow> ram_start s = ram_end s"

definition push_ram :: "io_env \<Rightarrow> string \<Rightarrow> world \<Rightarrow> int \<times> world" where
  "push_ram env item s =
     (if is_ram_full s then (- 1, s)
      else if \<not> strdup_ok env then (- 2, s)
      else (0, s\<lparr>ram_buffer := (ram_buffer s)(ram_end s \<mapsto> item),
                 ram_end := (ram_end s + 1) mod RAM_BUFFER_CAPACITY\<rparr>))"

text \<open>The second component is the C string left in \<open>out_buf\<close>, \<open>None\<close> when the
  buffer was not written.\<close>

definition pop_ram :: "nat \<Rightarrow> world \<Rightarrow> (int \<times> string option \<times> world) option" where
  "pop_ram buf_size s =
     (if is_ram_empty s then Some (- 1, None, s)
      else (case ram_buffer s (ram_start s) of
              None \<Rightarrow> None
            | Some item \<Rightarrow>
                (case copy_out buf_size item of
                   None \<Rightarrow> None
                 | Some out \<Rightarrow>
                     Some (0, Some out,
                       s\<lparr>ram_buffer := (ram_buffer s)(ram_start s := None),
                         ram_start := (ram_start s + 1) mod RAM_BUFFER_CAPACITY\<rparr>))))"

subsection \<open>Spill\<close>

text \<open>The number of write calls that succeed, and the bytes that reach the
  file out of those handed to the stream.\<close>

definition call_limit :: "io_env \<Rightarrow> nat option" where
  "call_limit env = map_option fst (write_limit env)"

definition reaches_disk :: "io_env \<Rightarrow> string \<Rightarrow> string" where
  "reaches_disk env out =
     (case write_limit env of None \<Rightarrow> out | Some (n, m) \<Rightarrow> take m out)"

fun spend :: "nat option \<Rightarrow> nat option" where
  "spend None = None"
| "spend (Some n) = Some (n - 1)"

text \<open>
  The \<open>while (!is_ram_empty())\<close> loop of \<open>spill_to_disk\<close>.  \<open>limit\<close> is what
  is left of the write calls that succeed; \<open>out\<close> collects the bytes handed to
  the stream so far, those of a call that returns \<open>EOF\<close> included, since a
  failing call may have passed on a part of them.  The file itself changes
  when the stream is closed.
\<close>

partial_function (option) spill_loop :: "nat option \<Rightarrow> string \<Rightarrow> world \<Rightarrow> (int \<times> string \<times> world) option" where
  "spill_loop limit out s =
     (if is_ram_empty s then Some (0, out, s)
      else (case ram_buffer s (ram_start s) of
              None \<Rightarrow> None
            | Some item \<Rightarrow>
                if limit = Some 0 then Some (- 2, out @ item, s)
                else if spend limit = Some 0 then Some (- 3, out @ item @ [newline], s)
                else spill_loop (spend (spend limit)) (out @ item @ [newline])
                       (s\<lparr>ram_buffer := (ram_buffer s)(ram_start s := None),
                          ram_start := (ram_start s + 1) mod RAM_BUFFER_CAPACITY\<rparr>)))"

text \<open>
  \<open>fopen(path, "a")\<close> creates a missing file.  Every path through the
  function that has opened the stream closes it with \<open>fclose(fp)\<close> and drops
  the result: whatever part of \<open>out\<close> reaches the disk is appended to the
  file, and the return code is the one the loop has found.
\<close>

definition spill_to_disk :: "io_env \<Rightarrow> path \<Rightarrow> world \<Rightarrow> (int \<times> world) option" where
  "spill_to_disk env p s =
     (if \<not> fopen_a_ok env then Some (- 1, s)
      else (case spill_loop (call_limit env) [] s of
              None \<Rightarrow> None
            | Some (r, out, s') \<Rightarrow>
                if r = 0 then
                  Some (0, (fappend p (reaches_disk env out) s')\<lparr>ram_start := 0, ram_end := 0\<rparr>)
                else Some (r, fappend p (reaches_disk env out) s')))"

subsection \<open>Coordinator\<close>

definition ultraqueue_push :: "io_env \<Rightarrow> path \<Rightarrow> string \<Rightarrow> world \<Rightarrow> (int \<times> world) option" where
  "ultraqueue_push env p item s =
     (case push_ram env item s of
        (res, s1) \<Rightarrow>
          if res = - 1 then
            (case spill_to_disk env p s1 of
               None \<Rightarrow> None
             | Some (spill_res, s2) \<Rightarrow>
                 if spill_res \<noteq> 0 then Some (spill_res, s2)
                 else Some (push_ram env item s2))
          else Some (res, s1))"

text \<open>The first loop of \<open>ultraqueue_pop\<close>: \<open>fp\<close> is the unread rest of the
  disk file, \<open>found\<close> and \<open>out\<close> the flag and the output buffer, \<open>temp\<close> the
  bytes written to the temporary file so far.\<close>

lemma fgets_take_shorter:
  "fp \<noteq> [] \<Longrightarrow> 0 < k \<Longrightarrow> length (snd (fgets_take k fp)) < length fp"
proof (induction k fp rule: fgets_take.induct)
  case (3 k c cs)
  then show ?case
    by (cases k; cases cs) (auto simp: less_Suc_eq)
qed simp_all

lemma fgets_shorter:
  "fgets MAX_LINE fp = Some (line, fp') \<Longrightarrow> length fp' < length fp"
  using fgets_take_shorter [of fp "MAX_LINE - 1"]
  by (auto simp: fgets_def MAX_LINE_def split: if_splits)

definition strip_newline :: "string \<Rightarrow> string" where
  "strip_newline out = (if out \<noteq> [] \<and> last out = newline then butlast out else out)"

function pop_scan :: "nat \<Rightarrow> string \<Rightarrow> bool \<Rightarrow> string option \<Rightarrow> string
    \<Rightarrow> (bool \<times> string option \<times> string) option" where
  "pop_scan buf_size fp found out temp =
     (case fgets MAX_LINE fp of
        None \<Rightarrow> Some (found, out, temp)
      | Some (line, fp') \<Rightarrow>
          if \<not> found then
            (case copy_out buf_size (cstr line) of
               None \<Rightarrow> None
             | Some copied \<Rightarrow> pop_scan buf_size fp' True (Some (strip_newline copied)) temp)
          else pop_scan buf_size fp' found out (temp @ cstr line))"
  by pat_completeness auto
termination
  by (relation "measure (\<lambda>(b, fp, f, out, temp). length fp)") (auto dest: fgets_shorter)

text \<open>The second loop: \<open>while (fgets(line, MAX_LINE, temp)) fputs(line, fp)\<close>.\<close>

function copy_lines :: "string \<Rightarrow> string \<Rightarrow> string" where
  "copy_lines src dst =
     (case fgets MAX_LINE src of
        None \<Rightarrow> dst
      | Some (line, src') \<Rightarrow> copy_lines src' (dst @ cstr line))"
  by pat_completeness auto
termination
  by (relation "measure (\<lambda>(src, dst). length src)") (auto dest: fgets_shorter)

declare pop_scan.simps [simp del] copy_lines.simps [simp del]

definition ultraqueue_pop :: "io_env \<Rightarrow> path \<Rightarrow> nat \<Rightarrow> world
    \<Rightarrow> (int \<times> string option \<times> world) option" where
  "ultraqueue_pop env p buf_size s =
     (case pop_ram buf_size s of
        None \<Rightarrow> None
      | Some (res, out, s1) \<Rightarrow>
          if res = 0 then Some (0, out, s1)
          else if \<not> fopen_r_ok env then Some (- 1, None, s1)
          else (case files s1 p of
                  None \<Rightarrow> Some (- 1, None, s1)
                | Some fp \<Rightarrow>
                    if \<not> tmpfile_ok env then Some (- 2, None, s1)
                    else (case pop_scan buf_size fp False None [] of
                            None \<Rightarrow> None
                          | Some (found, out', temp) \<Rightarrow>
                              if \<not> fopen_w_ok env then Some (- 3, out', s1)
                              else Some (if found then 0 else - 4, out',
                                     s1\<lparr>files := (files s1)(p \<mapsto> copy_lines temp [])\<rparr>))))"

text \<open>\<open>count\<close> is a C \<open>int\<close>; the model counts without the wrap-around, that is,
  for files of fewer than \<open>2^31\<close> lines.\<close>

definition ram_count :: "world \<Rightarrow> nat" where
  "ram_count s = (ram_end s + RAM_BUFFER_CAPACITY - ram_start s) mod RAM_BUFFER_CAPACITY"

definition ultraqueue_len :: "io_env \<Rightarrow> path \<Rightarrow> world \<Rightarrow> int" where
  "ultraqueue_len env p s =
     int (ram_count s) +
     (if \<not> fopen_r_ok env then 0
      else (case files s p of
              None \<Rightarrow> 0
            | Some fp \<Rightarrow> int (count_list fp newline)))"

subsection \<open>Abstraction and invariant of the RAM tier\<close>

text \<open>
  \<open>ram_items\<close> lists the strings held between \<open>ram_start\<close> and \<open>ram_end\<close>,
  oldest first; \<open>ram_used\<close> counts the slots of the array that hold a string.
  \<open>ram_inv\<close> says that both cursors are inside the array and that the slots
  holding a string are exactly those between the cursors.
  \<open>push_slot\<close> and \<open>pop_slot\<close> name the two state updates of \<open>push_ram\<close> and
  \<open>pop_ram\<close>; \<open>lines_of\<close> is the byte content of a file holding the given
  records; \<open>spill_trace\<close> computes, from the limit of write calls and the
  strings in RAM, the return code of the spill loop, the number of strings it
  removes from RAM and the bytes it hands to the stream.
\<close>

definition ram_items :: "world \<Rightarrow> string list" where
  "ram_items s =
     map (\<lambda>k. the (ram_buffer s ((ram_start s + k) mod RAM_BUFFER_CAPACITY))) [0..<ram_count s]"

definition ram_used :: "world \<Rightarrow> nat" where
  "ram_used s = length (filter (\<lambda>i. ram_buffer s i \<noteq> None) [0..<RAM_BUFFER_CAPACITY])"

definition ram_inv :: "world \<Rightarrow> bool" where
  "ram_inv s \<longleftrightarrow>
     ram_start s < RAM_BUFFER_CAPACITY \<and> ram_end s < RAM_BUFFER_CAPACITY \<and>
     (\<forall>i<RAM_BUFFER_CAPACITY.
        (ram_buffer s i \<noteq> None) =
        ((i + RAM_BUFFER_CAPACITY - ram_start s) mod RAM_BUFFER_CAPACITY < ram_count s))"

definition push_slot :: "string \<Rightarrow> world \<Rightarrow> world" where
  "push_slot item s = s\<lparr>ram_buffer := (ram_buffer s)(ram_end s \<mapsto> item),
                 ram_end := (ram_end s + 1) mod RAM_BUFFER_CAPACITY\<rparr>"

definition pop_slot :: "world \<Rightarrow> world" where
  "pop_slot s = s\<lparr>ram_buffer := (ram_buffer s)(ram_start s := None),
                         ram_start := (ram_start s + 1) mod RAM_BUFFER_CAPACITY\<rparr>"

definition lines_of :: "string list \<Rightarrow> string" where
  "lines_of xs = concat (map (\<lambda>x. x @ [newline]) xs)"

fun spill_trace :: "nat option \<Rightarrow> string list \<Rightarrow> int \<times> nat \<times> string" where
  "spill_trace limit [] = (0, 0, [])"
| "spill_trace limit (x # xs) =
     (if limit = Some 0 then (- 2, 0, x)
      else if spend limit = Some 0 then (- 3, 0, x @ [newline])
      else (case spill_trace (spend (spend limit)) xs of
              (r, k, bytes) \<Rightarrow> (r, Suc k, x @ [newline] @ bytes)))"

subsection \<open>Sequences of calls\<close>

text \<open>
  A client of the queue is a list of calls on one path, all made in the same
  environment.  \<open>run\<close> performs them in order and collects what each call
  returned: the return code of a push, the return code and the output buffer
  of a pop (whose argument is \<open>buf_size\<close>).  \<open>queue_view\<close> shows the two tiers
  of a state: the strings in RAM and the content of the disk file.
\<close>

datatype call = Push string | Pop nat

datatype reply = Pushed int | Popped int "string option"

fun run :: "io_env \<Rightarrow> path \<Rightarrow> call list \<Rightarrow> world \<Rightarrow> (reply list \<times> world) option" where
  "run env p [] s = Some ([], s)"
| "run env p (Push item # cs) s =
     (case ultraqueue_push env p item s of
        None \<Rightarrow> None
      | Some (r, s1) \<Rightarrow>
          (case run env p cs s1 of
             None \<Rightarrow> None
           | Some (rs, s2) \<Rightarrow> Some (Pushed r # rs, s2)))"
| "run env p (Pop buf_size # cs) s =
     (case ultraqueue_pop env p buf_size s of
        None \<Rightarrow> None
      | Some (r, out, s1) \<Rightarrow>
          (case run env p cs s1 of
             None \<Rightarrow> None
           | Some (rs, s2) \<Rightarrow> Some (Popped r out # rs, s2)))"

definition queue_view :: "path \<Rightarrow> world \<Rightarrow> string list \<times> string option" where
  "queue_view p s = (ram_items s, files s p)"

section \<open>Properties\<close>

subsection \<open>Index arithmetic of the ring\<close>

lemma ring_off:
  fixes s i n :: nat
  shows "s < n \<Longrightarrow> i < n \<Longrightarrow> (i + n - s) mod n = (if s \<le> i then i - s else i + n - s)"
  by (simp add: le_mod_geq)

lemma ring_idx:
  fixes s k n :: nat
  shows "s < n \<Longrightarrow> k < n \<Longrightarrow> (s + k) mod n = (if s + k < n then s + k else s + k - n)"
  by (simp add: le_mod_geq)

lemma ring_succ:
  fixes e n :: nat
  shows "e < n \<Longrightarrow> Suc e mod n = (if Suc e < n then Suc e else 0)"
  by (auto simp: mod_Suc)

lemma ring_full:
  fixes s e n :: nat
  shows "s < n \<Longrightarrow> e < n \<Longrightarrow> Suc 0 < n \<Longrightarrow> (Suc e mod n = s) = ((e + n - s) mod n = n - Suc 0)"
  by (auto simp: ring_off ring_succ)

lemma ring_count_push:
  fixes s e n :: nat
  shows "s < n \<Longrightarrow> e < n \<Longrightarrow> Suc e mod n \<noteq> s \<Longrightarrow>
    (Suc e mod n + n - s) mod n = Suc ((e + n - s) mod n)"
  by (auto simp: ring_off ring_succ split: if_splits)

lemma ring_pos_pop:
  fixes s i n :: nat
  shows "s < n \<Longrightarrow> i < n \<Longrightarrow> i \<noteq> s \<Longrightarrow>
    Suc ((i + n - Suc s mod n) mod n) = (i + n - s) mod n"
  by (auto simp: ring_off ring_succ split: if_splits)

lemma ring_pos_self:
  fixes s n :: nat
  shows "s < n \<Longrightarrow> Suc 0 < n \<Longrightarrow> (s + n - Suc s mod n) mod n = n - Suc 0"
  by (auto simp: ring_off ring_succ split: if_splits)

lemma ring_empty:
  fixes s e n :: nat
  shows "s < n \<Longrightarrow> e < n \<Longrightarrow> (s = e) = ((e + n - s) mod n = 0)"
  by (auto simp: ring_off)

lemma ring_slot:
  fixes s i n :: nat
  shows "s < n \<Longrightarrow> i < n \<Longrightarrow> (s + (i + n - s) mod n) mod n = i"
  by (cases "s \<le> i") (simp_all add: ring_off ring_idx)

lemma ring_pos:
  fixes s k n :: nat
  shows "s < n \<Longrightarrow> k < n \<Longrightarrow> ((s + k) mod n + n - s) mod n = k"
  by (cases "s + k < n") (simp_all add: ring_off ring_idx)

lemma ring_shift:
  fixes s k n :: nat
  shows "(Suc s mod n + k) mod n = Suc (s + k) mod n"
  by (simp add: mod_simps)

lemma ring_ne_start:
  fixes s j n :: nat
  shows "s < n \<Longrightarrow> 0 < j \<Longrightarrow> j < n \<Longrightarrow> (s + j) mod n \<noteq> s"
  by (auto simp: ring_idx)

subsection \<open>Cursors, occupancy and the two slot updates\<close>

lemma cap_pos: "1 < RAM_BUFFER_CAPACITY"
  by (simp add: RAM_BUFFER_CAPACITY_def)

lemma ram_count_less: "ram_count s < RAM_BUFFER_CAPACITY"
  using cap_pos by (simp add: ram_count_def)

lemma ram_inv_bounds: "ram_inv s \<Longrightarrow> ram_start s < RAM_BUFFER_CAPACITY \<and> ram_end s < RAM_BUFFER_CAPACITY"
  by (simp add: ram_inv_def)

lemma empty_iff_count: "ram_inv s \<Longrightarrow> is_ram_empty s \<longleftrightarrow> ram_count s = 0"
  using ring_empty [of "ram_start s" RAM_BUFFER_CAPACITY "ram_end s"]
  by (simp add: ram_inv_def is_ram_empty_def ram_count_def)

lemma full_iff_count: "ram_inv s \<Longrightarrow> is_ram_full s \<longleftrightarrow> ram_count s = RAM_BUFFER_CAPACITY - 1"
  using cap_pos ring_full [of "ram_start s" RAM_BUFFER_CAPACITY "ram_end s"]
  by (simp add: ram_inv_def is_ram_full_def ram_count_def)

lemma length_ram_items [simp]: "length (ram_items s) = ram_count s"
  by (simp add: ram_items_def)

lemma push_slot_sel [simp]:
  "ram_buffer (push_slot item s) = (ram_buffer s)(ram_end s \<mapsto> item)"
  "ram_start (push_slot item s) = ram_start s"
  "ram_end (push_slot item s) = (ram_end s + 1) mod RAM_BUFFER_CAPACITY"
  "files (push_slot item s) = files s"
  by (simp_all add: push_slot_def)

lemma pop_slot_sel [simp]:
  "ram_buffer (pop_slot s) = (ram_buffer s)(ram_start s := None)"
  "ram_start (pop_slot s) = (ram_start s + 1) mod RAM_BUFFER_CAPACITY"
  "ram_end (pop_slot s) = ram_end s"
  "files (pop_slot s) = files s"
  by (simp_all add: pop_slot_def)

lemma push_slot_count:
  assumes "ram_inv s" "\<not> is_ram_full s"
  shows "ram_count (push_slot item s) = ram_count s + 1"
  using assms ring_count_push [of "ram_start s" RAM_BUFFER_CAPACITY "ram_end s"]
  by (simp add: ram_inv_def is_ram_full_def ram_count_def push_slot_def)

lemma push_slot_inv:
  assumes "ram_inv s" "\<not> is_ram_full s"
  shows "ram_inv (push_slot item s)"
proof -
  let ?n = RAM_BUFFER_CAPACITY
  have b: "ram_start s < ?n" "ram_end s < ?n"
    using assms by (simp_all add: ram_inv_def)
  have c: "ram_count (push_slot item s) = ram_count s + 1"
    using assms by (rule push_slot_count)
  have e: "(ram_end s + ?n - ram_start s) mod ?n = ram_count s"
    by (simp add: ram_count_def)
  have "(ram_buffer (push_slot item s) i \<noteq> None) =
        ((i + ?n - ram_start (push_slot item s)) mod ?n < ram_count (push_slot item s))"
    if i: "i < ?n" for i
  proof (cases "i = ram_end s")
    case True
    then show ?thesis using e by (simp add: c)
  next
    case False
    have "(i + ?n - ram_start s) mod ?n \<noteq> ram_count s"
    proof
      assume "(i + ?n - ram_start s) mod ?n = ram_count s"
      then have "(ram_start s + (i + ?n - ram_start s) mod ?n) mod ?n
               = (ram_start s + (ram_end s + ?n - ram_start s) mod ?n) mod ?n"
        by (simp add: e)
      then have "i = ram_end s"
        using b i by (simp add: ring_slot)
      with False show False by simp
    qed
    moreover have "(ram_buffer s i \<noteq> None) = ((i + ?n - ram_start s) mod ?n < ram_count s)"
      using assms(1) i by (simp add: ram_inv_def)
    ultimately show ?thesis
      using False by (simp add: c less_Suc_eq)
  qed
  moreover have "ram_end (push_slot item s) < ?n" "ram_start (push_slot item s) < ?n"
    using b cap_pos by simp_all
  ultimately show ?thesis
    unfolding ram_inv_def by blast
qed

lemma push_slot_items:
  assumes "ram_inv s" "\<not> is_ram_full s"
  shows "ram_items (push_slot item s) = ram_items s @ [item]"
proof -
  let ?n = RAM_BUFFER_CAPACITY
  have b: "ram_start s < ?n" "ram_end s < ?n"
    using assms by (simp_all add: ram_inv_def)
  have c: "ram_count (push_slot item s) = ram_count s + 1"
    using assms by (rule push_slot_count)
  have last: "(ram_start s + ram_count s) mod ?n = ram_end s"
    using b by (simp add: ram_count_def ring_slot)
  have other: "(ram_start s + k) mod ?n \<noteq> ram_end s" if "k < ram_count s" for k
  proof
    assume "(ram_start s + k) mod ?n = ram_end s"
    then have "((ram_start s + k) mod ?n + ?n - ram_start s) mod ?n = ram_count s"
      by (simp add: ram_count_def)
    moreover have "k < ?n" using that ram_count_less [of s] by simp
    ultimately have "k = ram_count s" using b by (simp add: ring_pos)
    with that show False by simp
  qed
  show ?thesis
    by (rule nth_equalityI) (auto simp: c ram_items_def nth_append last other less_Suc_eq)
qed

lemma pop_slot_count:
  assumes "ram_inv s" "\<not> is_ram_empty s"
  shows "ram_count (pop_slot s) + 1 = ram_count s"
  using assms ring_pos_pop [of "ram_start s" RAM_BUFFER_CAPACITY "ram_end s"]
  by (simp add: ram_inv_def is_ram_empty_def ram_count_def pop_slot_def)

lemma pop_slot_inv:
  assumes "ram_inv s" "\<not> is_ram_empty s"
  shows "ram_inv (pop_slot s)"
proof -
  let ?n = RAM_BUFFER_CAPACITY
  have b: "ram_start s < ?n" "ram_end s < ?n"
    using assms by (simp_all add: ram_inv_def)
  have c: "ram_count (pop_slot s) + 1 = ram_count s"
    using assms by (rule pop_slot_count)
  have "(ram_buffer (pop_slot s) i \<noteq> None) =
        ((i + ?n - ram_start (pop_slot s)) mod ?n < ram_count (pop_slot s))"
    if i: "i < ?n" for i
  proof (cases "i = ram_start s")
    case True
    have "(ram_start s + ?n - (ram_start s + 1) mod ?n) mod ?n = ?n - 1"
      using b cap_pos by (simp add: ring_pos_self)
    moreover have "ram_count (pop_slot s) < ?n - 1"
      using c ram_count_less [of s] by simp
    ultimately show ?thesis
      using True by simp
  next
    case False
    have p: "(i + ?n - (ram_start s + 1) mod ?n) mod ?n + 1 = (i + ?n - ram_start s) mod ?n"
      using b i False by (simp add: ring_pos_pop)
    have q: "(ram_buffer s i \<noteq> None) = ((i + ?n - ram_start s) mod ?n < ram_count s)"
      using assms(1) i by (simp add: ram_inv_def)
    have "((i + ?n - ram_start s) mod ?n < ram_count s) =
          ((i + ?n - (ram_start s + 1) mod ?n) mod ?n < ram_count (pop_slot s))"
      using p c by linarith
    then show ?thesis
      using False q by simp
  qed
  moreover have "ram_end (pop_slot s) < ?n" "ram_start (pop_slot s) < ?n"
    using b cap_pos by simp_all
  ultimately show ?thesis
    unfolding ram_inv_def by blast
qed

lemma head_slot:
  assumes "ram_inv s" "\<not> is_ram_empty s"
  shows "ram_buffer s (ram_start s) = Some (hd (ram_items s))"
proof -
  let ?n = RAM_BUFFER_CAPACITY
  have pos: "0 < ram_count s"
    using assms by (simp add: empty_iff_count)
  have "ram_buffer s (ram_start s) \<noteq> None"
    using assms(1) pos cap_pos by (simp add: ram_inv_def)
  moreover have "hd (ram_items s) = the (ram_buffer s (ram_start s))"
    using pos assms(1) by (simp add: ram_items_def hd_map upt_conv_Cons ram_inv_def)
  ultimately show ?thesis by auto
qed

lemma pop_slot_items:
  assumes "ram_inv s" "\<not> is_ram_empty s"
  shows "ram_items (pop_slot s) = tl (ram_items s)"
proof -
  let ?n = RAM_BUFFER_CAPACITY
  have b: "ram_start s < ?n" "ram_end s < ?n"
    using assms by (simp_all add: ram_inv_def)
  have c: "ram_count (pop_slot s) + 1 = ram_count s"
    using assms by (rule pop_slot_count)
  have other: "(ram_start s + Suc k) mod ?n \<noteq> ram_start s" if "Suc k < ram_count s" for k
    using that b ram_count_less [of s] ring_ne_start [of "ram_start s" ?n "Suc k"] by simp
  show ?thesis
  proof (rule nth_equalityI)
    show "length (ram_items (pop_slot s)) = length (tl (ram_items s))"
      using c by simp
  next
    fix k assume "k < length (ram_items (pop_slot s))"
    then have k: "Suc k < ram_count s" using c by simp
    then show "ram_items (pop_slot s) ! k = tl (ram_items s) ! k"
      using c other [OF k] by (simp add: ram_items_def nth_tl ring_shift)
  qed
qed

subsection \<open>The spill loop\<close>

text \<open>
  The loop returns under the invariant, with the result that \<open>spill_trace\<close>
  computes from the strings in RAM.
\<close>

lemma ram_files_update [simp]:
  "ram_inv (s\<lparr>files := f\<rparr>) = ram_inv s"
  "ram_items (s\<lparr>files := f\<rparr>) = ram_items s"
  "ram_count (s\<lparr>files := f\<rparr>) = ram_count s"
  "is_ram_empty (s\<lparr>files := f\<rparr>) = is_ram_empty s"
  "is_ram_full (s\<lparr>files := f\<rparr>) = is_ram_full s"
  by (simp_all add: ram_inv_def ram_items_def ram_count_def is_ram_empty_def is_ram_full_def)

lemma fappend_sel [simp]:
  "ram_buffer (fappend p bytes s) = ram_buffer s"
  "ram_start (fappend p bytes s) = ram_start s"
  "ram_end (fappend p bytes s) = ram_end s"
  "files (fappend p bytes s) = (files s)(p \<mapsto> file_bytes s p @ bytes)"
  "ram_inv (fappend p bytes s) = ram_inv s"
  "ram_items (fappend p bytes s) = ram_items s"
  "ram_count (fappend p bytes s) = ram_count s"
  "is_ram_empty (fappend p bytes s) = is_ram_empty s"
  by (simp_all add: fappend_def)

lemma file_bytes_fappend [simp]:
  "file_bytes (fappend p bytes s) p = file_bytes s p @ bytes"
  by (simp add: file_bytes_def)

lemma fappend_fappend [simp]:
  "fappend p b2 (fappend p b1 s) = fappend p (b1 @ b2) s"
  by (simp add: fappend_def file_bytes_def)

lemma fappend_exists:
  "files s p \<noteq> None \<Longrightarrow> (files s)(p \<mapsto> file_bytes s p) = files s"
  by (auto simp: file_bytes_def)

lemma reaches_disk_all [simp]: "write_limit env = None \<Longrightarrow> reaches_disk env out = out"
  by (simp add: reaches_disk_def)

lemma call_limit_none [simp]: "write_limit env = None \<Longrightarrow> call_limit env = None"
  by (simp add: call_limit_def)

lemma spill_loop_empty:
  "is_ram_empty s \<Longrightarrow> spill_loop limit out s = Some (0, out, s)"
  by (subst spill_loop.simps) simp

lemma spill_loop_fputs_fails:
  "\<not> is_ram_empty s \<Longrightarrow> ram_buffer s (ram_start s) = Some x \<Longrightarrow>
   spill_loop (Some 0) out s = Some (- 2, out @ x, s)"
  by (subst spill_loop.simps) simp

lemma spill_loop_fputc_fails:
  "\<not> is_ram_empty s \<Longrightarrow> ram_buffer s (ram_start s) = Some x \<Longrightarrow>
   limit \<noteq> Some 0 \<Longrightarrow> spend limit = Some 0 \<Longrightarrow>
   spill_loop limit out s = Some (- 3, out @ x @ [newline], s)"
  by (subst spill_loop.simps) simp

lemma spill_loop_step:
  assumes "\<not> is_ram_empty s" "ram_buffer s (ram_start s) = Some x"
    "limit \<noteq> Some 0" "spend limit \<noteq> Some 0"
  shows "spill_loop limit out s =
     spill_loop (spend (spend limit)) (out @ x @ [newline]) (pop_slot s)"
  using assms by (subst spill_loop.simps) (simp add: pop_slot_def)

lemma spill_loop_trace:
  assumes "ram_inv s"
    and "spill_trace limit (ram_items s) = (r, k, bytes)"
  shows "\<exists>s'. spill_loop limit out s = Some (r, out @ bytes, s') \<and>
           ram_inv s' \<and> ram_end s' = ram_end s \<and>
           ram_items s' = drop k (ram_items s) \<and> files s' = files s"
  using assms
proof (induction "ram_count s" arbitrary: s limit r k bytes out)
  case 0
  then have e: "is_ram_empty s" and "ram_items s = []"
    by (simp_all add: empty_iff_count ram_items_def)
  with "0.prems" have "r = 0" "k = 0" "bytes = []" by simp_all
  then show ?case
    using e "0.prems" by (simp add: spill_loop_empty)
next
  case (Suc n)
  then have ne: "\<not> is_ram_empty s"
    by (simp add: empty_iff_count)
  define x where "x = hd (ram_items s)"
  have slot: "ram_buffer s (ram_start s) = Some x"
    using Suc.prems(1) ne by (simp add: x_def head_slot)
  have "ram_items s \<noteq> []"
    using Suc.hyps(2) by (simp add: ram_items_def)
  then have items: "ram_items s = x # ram_items (pop_slot s)"
    using Suc.prems(1) ne by (simp add: x_def pop_slot_items)
  show ?case
  proof (cases "limit = Some 0")
    case True
    with Suc.prems items have "r = - 2" "k = 0" "bytes = x" by simp_all
    then show ?thesis
      using True ne slot Suc.prems by (simp add: spill_loop_fputs_fails)
  next
    case l0: False
    show ?thesis
    proof (cases "spend limit = Some 0")
      case True
      with l0 Suc.prems items have "r = - 3" "k = 0" "bytes = x @ [newline]" by simp_all
      then show ?thesis
        using True l0 ne slot Suc.prems by (simp add: spill_loop_fputc_fails)
    next
      case l1: False
      let ?s3 = "pop_slot s"
      obtain r' k' bytes' where
        tr: "spill_trace (spend (spend limit)) (ram_items ?s3) = (r', k', bytes')"
        by (cases "spill_trace (spend (spend limit)) (ram_items ?s3)") auto
      with l0 l1 Suc.prems(2) items
      have eqs: "r = r'" "k = Suc k'" "bytes = x @ [newline] @ bytes'"
        by simp_all
      have "n = ram_count ?s3"
        using pop_slot_count [OF Suc.prems(1) ne] Suc.hyps(2) by simp
      moreover have "ram_inv ?s3"
        using Suc.prems(1) ne by (rule pop_slot_inv)
      ultimately obtain s' where
        s': "spill_loop (spend (spend limit)) (out @ x @ [newline]) ?s3 =
               Some (r', (out @ x @ [newline]) @ bytes', s')"
          "ram_inv s'" "ram_end s' = ram_end ?s3"
          "ram_items s' = drop k' (ram_items ?s3)" "files s' = files ?s3"
        using Suc.hyps(1) [of ?s3 "spend (spend limit)" r' k' bytes' "out @ x @ [newline]"] tr
        by blast
      have "spill_loop limit out s = Some (r, out @ bytes, s')"
        using s'(1) ne slot l0 l1 by (simp add: spill_loop_step eqs)
      moreover have "ram_items s' = drop k (ram_items s)"
        using s'(4) items by (simp add: eqs)
      ultimately show ?thesis
        using s'(2,3,5) by simp
    qed
  qed
qed

lemma spill_trace_all:
  "limit = None \<or> (\<exists>n. limit = Some n \<and> 2 * length xs \<le> n) \<Longrightarrow>
   spill_trace limit xs = (0, length xs, lines_of xs)"
proof (induction xs arbitrary: limit)
  case Nil
  then show ?case by (simp add: lines_of_def)
next
  case (Cons x xs)
  from Cons.prems have "spend (spend limit) = None \<or>
      (\<exists>n. spend (spend limit) = Some n \<and> 2 * length xs \<le> n)"
    by auto
  then have "spill_trace (spend (spend limit)) xs = (0, length xs, lines_of xs)"
    by (rule Cons.IH)
  moreover have "limit \<noteq> Some 0" "spend limit \<noteq> Some 0"
    using Cons.prems by auto
  ultimately show ?case
    by (simp add: lines_of_def)
qed

lemma spill_trace_fail:
  "n < 2 * length xs \<Longrightarrow> spill_trace (Some n) xs = (r, k, bytes) \<Longrightarrow>
   (r = - 2 \<or> r = - 3) \<and> k < length xs"
proof (induction xs arbitrary: n r k bytes)
  case Nil
  then show ?case by simp
next
  case (Cons x xs)
  show ?case
  proof (cases "n < 2")
    case True
    then have "n = 0 \<or> n = 1" by auto
    then show ?thesis
      using Cons.prems(2) by auto
  next
    case False
    obtain r' k' bytes' where tr: "spill_trace (Some (n - 2)) xs = (r', k', bytes')"
      by (cases "spill_trace (Some (n - 2)) xs") auto
    have sp: "spend (spend (Some n)) = Some (n - 2)" "Some n \<noteq> Some 0" "spend (Some n) \<noteq> Some 0"
      using False by simp_all
    have "n - 2 < 2 * length xs" using Cons.prems(1) False by simp
    from Cons.IH [OF this tr] sp tr Cons.prems(2) show ?thesis
      by (auto simp del: spend.simps)
  qed
qed

lemma spill_trace_prefix:
  "spill_trace limit xs = (r, k, bytes) \<Longrightarrow> \<exists>rest. lines_of xs = bytes @ rest"
proof (induction xs arbitrary: limit r k bytes)
  case Nil
  then show ?case by (simp add: lines_of_def)
next
  case (Cons x xs)
  obtain r' k' bytes' where tr: "spill_trace (spend (spend limit)) xs = (r', k', bytes')"
    by (cases "spill_trace (spend (spend limit)) xs") auto
  from Cons.IH [OF tr] obtain rest where "lines_of xs = bytes' @ rest"
    by blast
  then show ?case
    using Cons.prems tr by (auto simp: lines_of_def split: if_splits)
qed

lemma ram_reset:
  assumes "ram_inv s" "ram_count s = 0"
  shows "ram_inv (s\<lparr>ram_start := 0, ram_end := 0\<rparr>)"
    and "ram_items (s\<lparr>ram_start := 0, ram_end := 0\<rparr>) = []"
    and "ram_count (s\<lparr>ram_start := 0, ram_end := 0\<rparr>) = 0"
  using assms cap_pos by (simp_all add: ram_inv_def ram_items_def ram_count_def)

lemma spill_trace_zero:
  "spill_trace limit xs = (0, k, bytes) \<Longrightarrow> k = length xs"
proof (induction xs arbitrary: limit k bytes)
  case Nil
  then show ?case by simp
next
  case (Cons x xs)
  then show ?case
    by (cases "spill_trace (spend (spend limit)) xs") (auto split: if_splits)
qed

lemma spill_to_disk_trace:
  assumes "ram_inv s" "fopen_a_ok env"
    and "spill_trace (call_limit env) (ram_items s) = (r, k, bytes)"
  shows "\<exists>s'. spill_to_disk env p s = Some (r, s') \<and> ram_inv s' \<and>
           ram_items s' = drop k (ram_items s) \<and>
           files s' = (files s)(p \<mapsto> file_bytes s p @ reaches_disk env bytes) \<and>
           (r = 0 \<longrightarrow> ram_start s' = 0 \<and> ram_end s' = 0)"
proof -
  from spill_loop_trace [OF assms(1,3), of "[]"] obtain s1 where
    s1: "spill_loop (call_limit env) [] s = Some (r, bytes, s1)" "ram_inv s1"
      "ram_items s1 = drop k (ram_items s)" "files s1 = files s"
    by auto
  let ?s2 = "fappend p (reaches_disk env bytes) s1"
  have f: "files ?s2 = (files s)(p \<mapsto> file_bytes s p @ reaches_disk env bytes)"
    using s1(4) by (simp add: file_bytes_def)
  show ?thesis
  proof (cases "r = 0")
    case True
    then have "k = length (ram_items s)"
      using assms(3) spill_trace_zero [of "call_limit env" "ram_items s" k bytes] by simp
    then have "ram_count ?s2 = 0"
      using s1(3) length_ram_items [of s1] by simp
    moreover have "ram_inv ?s2"
      using s1(2) by simp
    ultimately have "ram_inv (?s2\<lparr>ram_start := 0, ram_end := 0\<rparr>)"
      "ram_items (?s2\<lparr>ram_start := 0, ram_end := 0\<rparr>) = []"
      by (simp_all add: ram_reset)
    then show ?thesis
      using True s1(1) f assms(2) \<open>k = length (ram_items s)\<close>
      by (simp add: spill_to_disk_def)
  next
    case False
    then show ?thesis
      using s1 f assms(2) by (simp add: spill_to_disk_def)
  qed
qed

subsection \<open>Pushing\<close>

lemma push_ram_full: "is_ram_full s \<Longrightarrow> push_ram env item s = (- 1, s)"
  by (simp add: push_ram_def)

lemma push_ram_room:
  "\<not> is_ram_full s \<Longrightarrow> strdup_ok env \<Longrightarrow> push_ram env item s = (0, push_slot item s)"
  by (simp add: push_ram_def push_slot_def)

lemma push_direct:
  "\<not> is_ram_full s \<Longrightarrow> strdup_ok env \<Longrightarrow>
   ultraqueue_push env p item s = Some (0, push_slot item s)"
  by (simp add: ultraqueue_push_def push_ram_room)

lemma not_full_reset:
  "ram_start s = 0 \<Longrightarrow> ram_end s = 0 \<Longrightarrow> \<not> is_ram_full s"
  using cap_pos by (simp add: is_ram_full_def)

lemma push_after_spill:
  assumes "ram_inv s" "is_ram_full s" "strdup_ok env" "fopen_a_ok env"
    and "call_limit env = None \<or> (\<exists>n. call_limit env = Some n \<and> 2 * ram_count s \<le> n)"
  shows "\<exists>s'. ultraqueue_push env p item s = Some (0, s') \<and> ram_inv s' \<and>
           ram_items s' = [item] \<and>
           files s' = (files s)(p \<mapsto> file_bytes s p @ reaches_disk env (lines_of (ram_items s)))"
proof -
  have "spill_trace (call_limit env) (ram_items s) =
          (0, length (ram_items s), lines_of (ram_items s))"
    using assms(5) by (intro spill_trace_all) simp
  from spill_to_disk_trace [OF assms(1,4) this, of p] obtain s2 where
    s2: "spill_to_disk env p s = Some (0, s2)" "ram_inv s2" "ram_items s2 = []"
      "files s2 = (files s)(p \<mapsto> file_bytes s p @ reaches_disk env (lines_of (ram_items s)))"
      "ram_start s2 = 0" "ram_end s2 = 0"
    by auto
  have nf: "\<not> is_ram_full s2"
    using s2(5,6) by (rule not_full_reset)
  have "ultraqueue_push env p item s = Some (0, push_slot item s2)"
    using assms(2,3) s2(1) nf by (simp add: ultraqueue_push_def push_ram_full push_ram_room)
  moreover have "ram_inv (push_slot item s2)"
    using s2(2) nf by (rule push_slot_inv)
  moreover have "ram_items (push_slot item s2) = [item]"
    using push_slot_items [OF s2(2) nf] s2(3) by simp
  ultimately show ?thesis
    using s2(4) by simp
qed

subsection \<open>Running a sequence of calls\<close>

lemma run_append:
  "run env p (cs @ ds) s =
     (case run env p cs s of
        None \<Rightarrow> None
      | Some (rs, s1) \<Rightarrow>
          (case run env p ds s1 of
             None \<Rightarrow> None
           | Some (rs', s2) \<Rightarrow> Some (rs @ rs', s2)))"
proof (induction cs arbitrary: s)
  case Nil
  then show ?case by (simp split: option.splits)
next
  case (Cons c cs)
  then show ?case
    by (cases c) (simp_all split: option.splits prod.splits)
qed

lemma run_pushes_fit:
  assumes "ram_inv s" "ram_count s + length xs < RAM_BUFFER_CAPACITY" "strdup_ok env"
  shows "\<exists>s'. run env p (map Push xs) s = Some (map (\<lambda>x. Pushed 0) xs, s') \<and>
           ram_inv s' \<and> ram_items s' = ram_items s @ xs \<and> files s' = files s"
  using assms
proof (induction xs arbitrary: s)
  case Nil
  then show ?case by simp
next
  case (Cons x xs)
  have nf: "\<not> is_ram_full s"
    using Cons.prems(1,2) by (simp add: full_iff_count)
  let ?s1 = "push_slot x s"
  have "ram_inv ?s1" using Cons.prems(1) nf by (rule push_slot_inv)
  moreover have "ram_count ?s1 + length xs < RAM_BUFFER_CAPACITY"
    using push_slot_count [OF Cons.prems(1) nf, of x] Cons.prems(2) by simp
  ultimately obtain s' where
    s': "run env p (map Push xs) ?s1 = Some (map (\<lambda>x. Pushed 0) xs, s')"
      "ram_inv s'" "ram_items s' = ram_items ?s1 @ xs" "files s' = files ?s1"
    using Cons.IH Cons.prems(3) by blast
  then show ?case
    using nf Cons.prems(1,3) by (simp add: push_direct push_slot_items)
qed

lemma ram_inv_init [simp]: "ram_inv (init_world\<lparr>files := f\<rparr>)" "ram_inv init_world"
  using cap_pos by (simp_all add: ram_inv_def init_world_def ram_count_def)

lemma ram_items_init [simp]: "ram_items init_world = []" "ram_count init_world = 0"
  using cap_pos by (simp_all add: ram_items_def init_world_def ram_count_def)

subsection \<open>Pushes below the capacity\<close>

text \<open>
  Claim C6.  Starting from an empty RAM tier and no file at the path, any
  sequence of \<open>N\<close> pushes with \<open>N < RAM_BUFFER_CAPACITY\<close> whose allocations
  succeed returns 0 every time; afterwards \<open>ultraqueue_len\<close> is \<open>N\<close> and the
  file system is unchanged, so no disk file has been created.
\<close>

theorem capacity_invariant:
  assumes "length xs < RAM_BUFFER_CAPACITY" "strdup_ok env" "files s p = None"
    and "ram_inv s" "is_ram_empty s"
  shows "\<exists>s'. run env p (map Push xs) s = Some (replicate (length xs) (Pushed 0), s') \<and>
           ultraqueue_len env' p s' = int (length xs) \<and> files s' = files s"
proof -
  have "ram_count s = 0" using assms(4,5) by (simp add: empty_iff_count)
  then have "ram_count s + length xs < RAM_BUFFER_CAPACITY" "ram_items s = []"
    using assms(1) by (simp_all add: ram_items_def)
  with run_pushes_fit [OF assms(4) this(1) assms(2), of p] obtain s' where
    s': "run env p (map Push xs) s = Some (map (\<lambda>x. Pushed 0) xs, s')"
      "ram_items s' = xs" "files s' = files s"
    by auto
  have "ram_count s' = length xs"
    using s'(2) length_ram_items [of s'] by simp
  then have "ultraqueue_len env' p s' = int (length xs)"
    using assms(3) s'(3) by (simp add: ultraqueue_len_def)
  then show ?thesis
    using s'(1,3) by (simp add: map_replicate_const)
qed

theorem capacity_invariant_witness:
  "\<exists>s'. run ok_env ''q'' (map Push [''a'', ''b'']) init_world = Some ([Pushed 0, Pushed 0], s') \<and>
         ultraqueue_len ok_env ''q'' s' = 2 \<and> files s' = files init_world"
  using capacity_invariant [of "[''a'', ''b'']" ok_env init_world "''q''" ok_env]
  by (simp add: RAM_BUFFER_CAPACITY_def ok_env_def init_world_def is_ram_empty_def ram_inv_def ram_count_def)

subsection \<open>Reading and rewriting the disk file\<close>

lemma fgets_take_split: "fst (fgets_take k fp) @ snd (fgets_take k fp) = fp"
  by (induction k fp rule: fgets_take.induct) simp_all

lemma fgets_take_line:
  "newline \<notin> set x \<Longrightarrow> length x < k \<Longrightarrow>
   fgets_take k (x @ newline # rest) = (x @ [newline], rest)"
proof (induction x arbitrary: k)
  case Nil
  then show ?case by (cases k) auto
next
  case (Cons c x)
  then show ?case by (cases k) auto
qed

lemma fgets_take_long:
  "newline \<notin> set (take k fp) \<Longrightarrow> fgets_take k fp = (take k fp, drop k fp)"
  by (induction k fp rule: fgets_take.induct) auto

lemma cstr_id: "NUL \<notin> set xs \<Longrightarrow> cstr xs = xs"
  by (auto simp: cstr_def)

lemma fgets_eof [simp]: "fgets n [] = None"
  by (simp add: fgets_def)

lemma fgets_more: "fp \<noteq> [] \<Longrightarrow> fgets n fp = Some (fgets_take (n - 1) fp)"
  by (simp add: fgets_def)

lemma copy_lines_id: "NUL \<notin> set src \<Longrightarrow> copy_lines src dst = dst @ src"
proof (induction src dst rule: copy_lines.induct)
  case (1 src dst)
  show ?case
  proof (cases "src = []")
    case True
    then show ?thesis by (subst copy_lines.simps) simp
  next
    case False
    let ?line = "fst (fgets_take (MAX_LINE - 1) src)"
    let ?rest = "snd (fgets_take (MAX_LINE - 1) src)"
    have sp: "?line @ ?rest = src" by (rule fgets_take_split)
    then have "NUL \<notin> set ?line" "NUL \<notin> set ?rest"
      using "1.prems" by (metis Un_iff set_append)+
    moreover have "fgets MAX_LINE src = Some (?line, ?rest)"
      using False by (simp add: fgets_more)
    ultimately have "copy_lines ?rest (dst @ cstr ?line) = (dst @ cstr ?line) @ ?rest"
      using "1.IH" by blast
    then show ?thesis
      using False sp \<open>NUL \<notin> set ?line\<close>
      by (subst copy_lines.simps) (simp add: fgets_more cstr_id case_prod_beta)
  qed
qed

lemma pop_scan_found:
  "pop_scan b fp True out temp = Some (True, out, copy_lines fp temp)"
proof (induction fp temp rule: copy_lines.induct)
  case (1 src dst)
  show ?case
  proof (cases "src = []")
    case True
    then show ?thesis
      by (subst pop_scan.simps, subst copy_lines.simps) simp
  next
    case False
    then have "fgets MAX_LINE src = Some (fst (fgets_take (MAX_LINE - 1) src), snd (fgets_take (MAX_LINE - 1) src))"
      by (simp add: fgets_more)
    from "1.IH" [OF this] False show ?thesis
      by (subst pop_scan.simps, subst copy_lines.simps) (simp add: fgets_more case_prod_beta)
  qed
qed

lemma pop_scan_eof: "pop_scan b [] found out temp = Some (found, out, temp)"
  by (subst pop_scan.simps) simp

lemma pop_scan_first:
  assumes "fp \<noteq> []" "0 < b"
  shows "pop_scan b fp False None [] =
     Some (True, Some (strip_newline (take (b - 1) (cstr (fst (fgets_take (MAX_LINE - 1) fp))))),
           copy_lines (snd (fgets_take (MAX_LINE - 1) fp)) [])"
  using assms by (subst pop_scan.simps) (simp add: fgets_more copy_out_def pop_scan_found case_prod_beta)

lemma strip_take:
  "newline \<notin> set x \<Longrightarrow> strip_newline (take n (x @ [newline])) = take n x"
proof (cases "n \<le> length x")
  case True
  assume "newline \<notin> set x"
  then have "take n x = [] \<or> last (take n x) \<noteq> newline"
    by (metis in_set_takeD last_in_set)
  then show ?thesis using True by (auto simp: strip_newline_def)
next
  case False
  then show ?thesis by (simp add: strip_newline_def)
qed

lemma strip_take_plain:
  "newline \<notin> set x \<Longrightarrow> strip_newline (take n x) = take n x"
proof -
  assume "newline \<notin> set x"
  then have "take n x = [] \<or> last (take n x) \<noteq> newline"
    by (metis in_set_takeD last_in_set)
  then show ?thesis by (auto simp: strip_newline_def)
qed

lemma pop_ram_empty: "is_ram_empty s \<Longrightarrow> pop_ram b s = Some (- 1, None, s)"
  by (simp add: pop_ram_def)

lemma pop_ram_head:
  assumes "ram_inv s" "\<not> is_ram_empty s" "0 < b"
  shows "pop_ram b s = Some (0, Some (take (b - 1) (hd (ram_items s))), pop_slot s)"
  using assms head_slot [OF assms(1,2)] by (simp add: pop_ram_def copy_out_def pop_slot_def)

lemma pop_from_ram:
  assumes "ram_inv s" "\<not> is_ram_empty s" "0 < b"
  shows "ultraqueue_pop env p b s = Some (0, Some (take (b - 1) (hd (ram_items s))), pop_slot s)"
  using pop_ram_head [OF assms] by (simp add: ultraqueue_pop_def)

lemma pop_from_disk:
  assumes "is_ram_empty s" "fopen_r_ok env" "tmpfile_ok env" "fopen_w_ok env"
    and "files s p = Some fp" "fp \<noteq> []" "0 < b"
  shows "ultraqueue_pop env p b s =
     Some (0, Some (strip_newline (take (b - 1) (cstr (fst (fgets_take (MAX_LINE - 1) fp))))),
       s\<lparr>files := (files s)(p \<mapsto> copy_lines (copy_lines (snd (fgets_take (MAX_LINE - 1) fp)) []) [])\<rparr>)"
  using assms by (simp add: ultraqueue_pop_def pop_ram_empty pop_scan_first)

lemma pop_disk_line:
  assumes "is_ram_empty s" "fopen_r_ok env" "tmpfile_ok env" "fopen_w_ok env"
    and "files s p = Some (x @ newline # rest)" "0 < b"
    and "newline \<notin> set x" "NUL \<notin> set x" "NUL \<notin> set rest" "length x < MAX_LINE - 1"
  shows "ultraqueue_pop env p b s =
     Some (0, Some (take (b - 1) x), s\<lparr>files := (files s)(p \<mapsto> rest)\<rparr>)"
proof -
  have "fgets_take (MAX_LINE - 1) (x @ newline # rest) = (x @ [newline], rest)"
    using assms(7,10) by (rule fgets_take_line)
  moreover have "cstr (x @ [newline]) = x @ [newline]"
    using assms(8) by (simp add: cstr_id NUL_def newline_def)
  moreover have "copy_lines (copy_lines rest []) [] = rest"
    using assms(9) by (simp add: copy_lines_id)
  ultimately show ?thesis
    using pop_from_disk [OF assms(1-5) _ assms(6)] strip_take [OF assms(7), of "b - 1"] by simp
qed

lemma pop_disk_long:
  assumes "is_ram_empty s" "fopen_r_ok env" "tmpfile_ok env" "fopen_w_ok env"
    and "files s p = Some (x @ newline # rest)" "0 < b"
    and "newline \<notin> set x" "NUL \<notin> set x" "NUL \<notin> set rest" "MAX_LINE - 1 \<le> length x"
  shows "ultraqueue_pop env p b s =
     Some (0, Some (take (b - 1) (take (MAX_LINE - 1) x)),
       s\<lparr>files := (files s)(p \<mapsto> drop (MAX_LINE - 1) x @ newline # rest)\<rparr>)"
proof -
  let ?k = "MAX_LINE - 1"
  let ?fp = "x @ newline # rest"
  have tk: "take ?k ?fp = take ?k x" "drop ?k ?fp = drop ?k x @ newline # rest"
    using assms(10) by simp_all
  have nl: "newline \<notin> set (take ?k x)"
    using assms(7) by (meson in_set_takeD)
  then have "fgets_take ?k ?fp = (take ?k x, drop ?k x @ newline # rest)"
    using fgets_take_long [of ?k ?fp] tk by simp
  moreover have "cstr (take ?k x) = take ?k x"
    using assms(8) by (meson cstr_id in_set_takeD)
  moreover have "NUL \<notin> set (drop ?k x @ newline # rest)"
    using assms(8,9) by (auto simp: NUL_def newline_def dest: in_set_dropD)
  then have "copy_lines (copy_lines (drop ?k x @ newline # rest) []) [] = drop ?k x @ newline # rest"
    by (simp add: copy_lines_id)
  ultimately show ?thesis
    using pop_from_disk [OF assms(1-5) _ assms(6)] strip_take_plain [OF nl, of "b - 1"]
    by simp
qed

lemma files_same: "files s p = Some c \<Longrightarrow> s\<lparr>files := (files s)(p \<mapsto> c)\<rparr> = s"
  by (simp add: fun_upd_idem)

lemma pop_no_file:
  "is_ram_empty s \<Longrightarrow> files s p = None \<or> \<not> fopen_r_ok env \<Longrightarrow>
   ultraqueue_pop env p b s = Some (- 1, None, s)"
  by (auto simp: ultraqueue_pop_def pop_ram_empty)

lemma pop_empty_file:
  "is_ram_empty s \<Longrightarrow> files s p = Some [] \<Longrightarrow> fopen_r_ok env \<Longrightarrow> tmpfile_ok env \<Longrightarrow>
   fopen_w_ok env \<Longrightarrow> ultraqueue_pop env p b s = Some (- 4, None, s)"
  by (subst (2) files_same [of s p "[]", symmetric])
     (simp_all add: ultraqueue_pop_def pop_ram_empty pop_scan_eof copy_lines.simps)

subsection \<open>Popping from the disk file\<close>

text \<open>
  Claim C5 does not hold as stated, for two reasons.  A first line of 5000
  bytes does not fit the line buffer of \<open>MAX_LINE\<close> bytes: the pop returns its
  first 4095 bytes and the rewritten file starts with the other 905 bytes,
  ahead of \<open>y\<close> and \<open>z\<close>.  And with an output buffer of 2 bytes the pop of
  the line \<open>x1\<close> returns \<open>x\<close>.
\<close>

theorem disk_pop_long_or_cut_counterexample:
  "ultraqueue_pop ok_env ''q'' 8192
     (init_world\<lparr>files := (files init_world)
        (''q'' \<mapsto> lines_of [replicate 5000 CHR ''a'', ''y2'', ''z3''])\<rparr>) =
   Some (0, Some (replicate 4095 CHR ''a''),
     init_world\<lparr>files := (files init_world)
        (''q'' \<mapsto> replicate 905 CHR ''a'' @ newline # lines_of [''y2'', ''z3''])\<rparr>) \<and>
   ultraqueue_pop ok_env ''q'' 2
     (init_world\<lparr>files := (files init_world)(''q'' \<mapsto> lines_of [''x1'', ''y2'', ''z3''])\<rparr>) =
   Some (0, Some ''x'',
     init_world\<lparr>files := (files init_world)(''q'' \<mapsto> lines_of [''y2'', ''z3''])\<rparr>)"
proof -
  let ?long = "init_world\<lparr>files := (files init_world)
        (''q'' \<mapsto> lines_of [replicate 5000 CHR ''a'', ''y2'', ''z3''])\<rparr>"
  let ?short = "init_world\<lparr>files := (files init_world)
        (''q'' \<mapsto> lines_of [''x1'', ''y2'', ''z3''])\<rparr>"
  have env: "fopen_r_ok ok_env" "tmpfile_ok ok_env" "fopen_w_ok ok_env"
    by (simp_all add: ok_env_def)
  have e: "is_ram_empty ?long" "is_ram_empty ?short"
    by (simp_all add: is_ram_empty_def init_world_def)
  have fl: "files ?long ''q'' = Some (replicate 5000 CHR ''a'' @ newline # lines_of [''y2'', ''z3''])"
    by (simp add: lines_of_def)
  have fs: "files ?short ''q'' = Some (''x1'' @ newline # lines_of [''y2'', ''z3''])"
    by (simp add: lines_of_def)
  have clean: "NUL \<notin> set (lines_of [''y2'', ''z3''])"
    by (simp add: lines_of_def NUL_def newline_def)
  have "ultraqueue_pop ok_env ''q'' 8192 ?long =
      Some (0, Some (take (8192 - 1) (take (MAX_LINE - 1) (replicate 5000 CHR ''a''))),
        ?long\<lparr>files := (files ?long)
          (''q'' \<mapsto> drop (MAX_LINE - 1) (replicate 5000 CHR ''a'') @ newline # lines_of [''y2'', ''z3''])\<rparr>)"
    by (rule pop_disk_long [OF e(1) env fl _ _ _ clean])
       (simp_all add: newline_def NUL_def MAX_LINE_def)
  moreover have "ultraqueue_pop ok_env ''q'' 2 ?short =
      Some (0, Some (take (2 - 1) ''x1''),
        ?short\<lparr>files := (files ?short)(''q'' \<mapsto> lines_of [''y2'', ''z3''])\<rparr>)"
    by (rule pop_disk_line [OF e(2) env fs _ _ _ clean])
       (simp_all add: newline_def NUL_def MAX_LINE_def)
  ultimately show ?thesis
    by (simp add: MAX_LINE_def)
qed

text \<open>
  Claim C5, amended.  With an empty RAM tier, a file holding exactly the lines
  \<open>x\<close>, \<open>y\<close>, \<open>z\<close> and no failing library call, where \<open>x\<close> is shorter than
  \<open>MAX_LINE - 1\<close> bytes and shorter than the output buffer, \<open>ultraqueue_pop\<close>
  returns 0 with \<open>x\<close> (without its newline) in the output buffer and leaves
  the file holding exactly the lines \<open>y\<close>, \<open>z\<close>.  The lines are C strings:
  they hold no NUL byte.
\<close>

theorem disk_pop_compaction:
  assumes "is_ram_empty s" "fopen_r_ok env" "tmpfile_ok env" "fopen_w_ok env"
    and "files s p = Some (lines_of [x, y, z])"
    and "newline \<notin> set x" "length x < MAX_LINE - 1" "length x < b"
    and "NUL \<notin> set x" "NUL \<notin> set y" "NUL \<notin> set z"
  shows "ultraqueue_pop env p b s =
     Some (0, Some x, s\<lparr>files := (files s)(p \<mapsto> lines_of [y, z])\<rparr>)"
proof -
  have "files s p = Some (x @ newline # lines_of [y, z])"
    using assms(5) by (simp add: lines_of_def)
  moreover have "NUL \<notin> set (lines_of [y, z])"
    using assms(10,11) by (simp add: lines_of_def NUL_def newline_def)
  moreover have "0 < b" "take (b - 1) x = x"
    using assms(8) by simp_all
  ultimately show ?thesis
    using pop_disk_line [OF assms(1-4) _ _ assms(6,9) _ assms(7), of p "lines_of [y, z]" b]
    by simp
qed

theorem disk_pop_compaction_witness:
  "ultraqueue_pop ok_env ''q'' 16
     (init_world\<lparr>files := (files init_world)(''q'' \<mapsto> lines_of [''x1'', ''y2'', ''z3''])\<rparr>) =
   Some (0, Some ''x1'',
     init_world\<lparr>files := (files init_world)(''q'' \<mapsto> lines_of [''y2'', ''z3''])\<rparr>)"
  using disk_pop_compaction [of
    "init_world\<lparr>files := (files init_world)(''q'' \<mapsto> lines_of [''x1'', ''y2'', ''z3''])\<rparr>"
    ok_env "''q''" "''x1''" "''y2''" "''z3''" 16]
  by (simp add: ok_env_def init_world_def is_ram_empty_def MAX_LINE_def newline_def NUL_def)

subsection \<open>Lines longer than the line buffer\<close>

text \<open>
  Claim C10.  When the first line of the file, newline included, has
  \<open>MAX_LINE\<close> bytes or more, one disk pop takes only its first
  \<open>MAX_LINE - 1\<close> bytes (cut further to the output buffer); the rest of the
  line stays at the head of the rewritten file, where it is the start of the
  next record.
\<close>

theorem long_line_split:
  assumes "is_ram_empty s" "fopen_r_ok env" "tmpfile_ok env" "fopen_w_ok env"
    and "files s p = Some (x @ newline # rest)" "MAX_LINE \<le> length (x @ [newline])"
    and "newline \<notin> set x" "NUL \<notin> set x" "NUL \<notin> set rest" "0 < b"
  shows "ultraqueue_pop env p b s =
     Some (0, Some (take (b - 1) (take (MAX_LINE - 1) x)),
       s\<lparr>files := (files s)(p \<mapsto> drop (MAX_LINE - 1) (x @ [newline]) @ rest)\<rparr>)"
proof -
  have "MAX_LINE - 1 \<le> length x"
    using assms(6) by simp
  then show ?thesis
    using pop_disk_long [OF assms(1-5) assms(10) assms(7-9)] by simp
qed

theorem long_line_split_witness:
  "ultraqueue_pop ok_env ''q'' 5000
     (init_world\<lparr>files := (files init_world)(''q'' \<mapsto> replicate 4095 CHR ''a'' @ newline # ''b'' @ [newline])\<rparr>) =
   Some (0, Some (replicate 4095 CHR ''a''),
     init_world\<lparr>files := (files init_world)(''q'' \<mapsto> newline # ''b'' @ [newline])\<rparr>)"
  using long_line_split [of
    "init_world\<lparr>files := (files init_world)(''q'' \<mapsto> replicate 4095 CHR ''a'' @ newline # ''b'' @ [newline])\<rparr>"
    ok_env "''q''" "replicate 4095 CHR ''a''" "''b'' @ [newline]" 5000]
  by (simp add: ok_env_def init_world_def is_ram_empty_def MAX_LINE_def newline_def NUL_def)

subsection \<open>Popping from an empty queue\<close>

text \<open>
  Claim C3 does not hold as stated: the result for "no disk file" is the
  return code \<open>-1\<close>, and the same code with the same untouched output buffer
  is what a refused \<open>fopen\<close> of an existing, non-empty file gives.
\<close>

theorem empty_result_shared_with_open_error:
  "map_option fst (ultraqueue_pop ok_env ''q'' 8 init_world) = Some (- 1) \<and>
   map_option fst (ultraqueue_pop (ok_env\<lparr>fopen_r_ok := False\<rparr>) ''q'' 8
     (init_world\<lparr>files := (files init_world)(''q'' \<mapsto> lines_of [''x''])\<rparr>)) = Some (- 1)"
  by (simp add: ultraqueue_pop_def pop_ram_def is_ram_empty_def init_world_def ok_env_def)

text \<open>
  Claim C3, amended.  With nothing in RAM, \<open>ultraqueue_pop\<close> returns \<open>-1\<close> and
  changes nothing when there is no disk file, and returns \<open>-4\<close> and changes
  nothing when the disk file exists and is empty (the temporary file and the
  reopening for writing succeeding).  \<open>-1\<close> is also the result when an existing
  file cannot be opened; the results \<open>-2\<close> of a failed \<open>tmpfile\<close> and \<open>-3\<close>
  of a failed reopening are different from both.
\<close>

theorem pop_on_empty_queue:
  assumes "is_ram_empty s"
  shows "(files s p = None \<longrightarrow> ultraqueue_pop env p b s = Some (- 1, None, s)) \<and>
         (\<not> fopen_r_ok env \<longrightarrow> ultraqueue_pop env p b s = Some (- 1, None, s)) \<and>
         (files s p = Some [] \<and> fopen_r_ok env \<and> tmpfile_ok env \<and> fopen_w_ok env \<longrightarrow>
            ultraqueue_pop env p b s = Some (- 4, None, s)) \<and>
         (files s p \<noteq> None \<and> fopen_r_ok env \<and> \<not> tmpfile_ok env \<longrightarrow>
            ultraqueue_pop env p b s = Some (- 2, None, s)) \<and>
         (files s p = Some [] \<and> fopen_r_ok env \<and> tmpfile_ok env \<and> \<not> fopen_w_ok env \<longrightarrow>
            ultraqueue_pop env p b s = Some (- 3, None, s))"
proof (intro conjI impI)
  assume "files s p = None"
  then show "ultraqueue_pop env p b s = Some (- 1, None, s)"
    using assms by (simp add: pop_no_file)
next
  assume "\<not> fopen_r_ok env"
  then show "ultraqueue_pop env p b s = Some (- 1, None, s)"
    using assms by (simp add: pop_no_file)
next
  assume "files s p = Some [] \<and> fopen_r_ok env \<and> tmpfile_ok env \<and> fopen_w_ok env"
  then show "ultraqueue_pop env p b s = Some (- 4, None, s)"
    using assms by (simp add: pop_empty_file)
next
  assume "files s p \<noteq> None \<and> fopen_r_ok env \<and> \<not> tmpfile_ok env"
  then show "ultraqueue_pop env p b s = Some (- 2, None, s)"
    using assms by (auto simp: ultraqueue_pop_def pop_ram_empty)
next
  assume "files s p = Some [] \<and> fopen_r_ok env \<and> tmpfile_ok env \<and> \<not> fopen_w_ok env"
  then show "ultraqueue_pop env p b s = Some (- 3, None, s)"
    using assms by (simp add: ultraqueue_pop_def pop_ram_empty pop_scan_eof)
qed

theorem pop_on_empty_queue_witness:
  "is_ram_empty init_world \<and>
   ultraqueue_pop ok_env ''q'' 8 init_world = Some (- 1, None, init_world) \<and>
   ultraqueue_pop ok_env ''q'' 8 (init_world\<lparr>files := (files init_world)(''q'' \<mapsto> [])\<rparr>) =
     Some (- 4, None, init_world\<lparr>files := (files init_world)(''q'' \<mapsto> [])\<rparr>)"
  using pop_on_empty_queue [of init_world "''q''" ok_env 8]
    pop_on_empty_queue [of "init_world\<lparr>files := (files init_world)(''q'' \<mapsto> [])\<rparr>" "''q''" ok_env 8]
  by (simp add: is_ram_empty_def init_world_def ok_env_def)

subsection \<open>The output buffer\<close>

text \<open>
  For every buffer size of at least one byte a pop from RAM succeeds with the
  first \<open>buf_size - 1\<close> bytes of the stored string.
\<close>

lemma pop_truncates:
  assumes "ram_inv s" "ram_items s = item # others" "0 < b"
  shows "\<exists>s'. ultraqueue_pop env p b s = Some (0, Some (take (b - 1) item), s') \<and>
           ram_inv s' \<and> ram_items s' = others \<and> files s' = files s"
proof -
  have ne: "\<not> is_ram_empty s"
    using assms(1,2) length_ram_items [of s] by (simp add: empty_iff_count)
  show ?thesis
    using pop_from_ram [OF assms(1) ne assms(3)] pop_slot_inv [OF assms(1) ne]
      pop_slot_items [OF assms(1) ne] assms(2)
    by simp
qed

text \<open>
  Claim C8 at the buffer size 0: after one push, a pop with \<open>buf_size = 0\<close> has
  no defined result, since \<open>buf_size - 1\<close> wraps around and the copy runs past
  the buffer.
\<close>

theorem pop_zero_buffer:
  "run ok_env ''q'' [Push ''abc'', Pop 0] init_world = None"
  by (simp add: ultraqueue_push_def push_ram_def is_ram_full_def init_world_def ok_env_def
      RAM_BUFFER_CAPACITY_def ultraqueue_pop_def pop_ram_def is_ram_empty_def copy_out_def)

subsection \<open>Filling the RAM tier and spilling\<close>

lemma run_pushes_flush:
  assumes "ram_inv s" "is_ram_empty s" "length xs = RAM_BUFFER_CAPACITY - 1"
    and "strdup_ok env" "fopen_a_ok env"
    and "call_limit env = None \<or> (\<exists>n. call_limit env = Some n \<and> 2 * length xs \<le> n)"
  shows "\<exists>s'. run env p (map Push (xs @ [y])) s =
             Some (replicate RAM_BUFFER_CAPACITY (Pushed 0), s') \<and>
           ram_inv s' \<and> ram_items s' = [y] \<and>
           files s' = (files s)(p \<mapsto> file_bytes s p @ reaches_disk env (lines_of xs))"
proof -
  have c0: "ram_count s = 0"
    using assms(1,2) by (simp add: empty_iff_count)
  then have items0: "ram_items s = []"
    by (simp add: ram_items_def)
  have "ram_count s + length xs < RAM_BUFFER_CAPACITY"
    using c0 assms(3) cap_pos by simp
  from run_pushes_fit [OF assms(1) this assms(4), of p] obtain s1 where
    s1: "run env p (map Push xs) s = Some (map (\<lambda>x. Pushed 0) xs, s1)"
      "ram_inv s1" "ram_items s1 = xs" "files s1 = files s"
    using items0 by auto
  have c1: "ram_count s1 = length xs"
    using s1(3) length_ram_items [of s1] by simp
  then have full: "is_ram_full s1"
    using s1(2) assms(3) by (simp add: full_iff_count)
  have "call_limit env = None \<or> (\<exists>n. call_limit env = Some n \<and> 2 * ram_count s1 \<le> n)"
    using assms(6) c1 by simp
  from push_after_spill [OF s1(2) full assms(4,5) this, of p y] obtain s2 where
    s2: "ultraqueue_push env p y s1 = Some (0, s2)" "ram_inv s2" "ram_items s2 = [y]"
      "files s2 = (files s1)(p \<mapsto> file_bytes s1 p @ reaches_disk env (lines_of (ram_items s1)))"
    by auto
  have fb: "file_bytes s1 p = file_bytes s p"
    using s1(4) by (simp add: file_bytes_def)
  have "replicate RAM_BUFFER_CAPACITY (Pushed 0) = map (\<lambda>x. Pushed 0) xs @ [Pushed 0]"
    using assms(3) cap_pos
    by (metis Suc_diff_1 less_imp_Suc_add map_replicate_const replicate_Suc replicate_append_same zero_less_Suc)
  then show ?thesis
    using s1 s2 fb by (simp add: run_append)
qed

lemma run_pushes_spill:
  assumes "ram_inv s" "is_ram_empty s" "length xs = RAM_BUFFER_CAPACITY - 1"
    and "strdup_ok env" "fopen_a_ok env" "write_limit env = None"
  shows "\<exists>s'. run env p (map Push (xs @ [y])) s =
             Some (replicate RAM_BUFFER_CAPACITY (Pushed 0), s') \<and>
           ram_inv s' \<and> ram_items s' = [y] \<and>
           files s' = (files s)(p \<mapsto> file_bytes s p @ lines_of xs)"
  using run_pushes_flush [OF assms(1-5), of p y] assms(6) by simp

lemma run_then:
  "run env p cs s = Some (rs, s1) \<Longrightarrow> run env p ds s1 = Some (rs', s2) \<Longrightarrow>
   run env p (cs @ ds) s = Some (rs @ rs', s2)"
  by (simp add: run_append)

lemma run_push1:
  "ultraqueue_push env p x s = Some (r, s1) \<Longrightarrow> run env p [Push x] s = Some ([Pushed r], s1)"
  by simp

lemma run_pop1:
  "ultraqueue_pop env p b s = Some (r, out, s1) \<Longrightarrow>
   run env p [Pop b] s = Some ([Popped r out], s1)"
  by simp

lemma count_lines_of:
  "\<forall>x\<in>set xs. newline \<notin> set x \<Longrightarrow> count_list (lines_of xs) newline = length xs"
  by (induction xs) (simp_all add: lines_of_def)

lemma replicate_cap: "replicate 10000 x = replicate 9999 x @ [x]"
proof -
  have "replicate (Suc 9999) x = replicate 9999 x @ [x]"
    by (simp only: replicate_Suc replicate_append_same)
  then show ?thesis by simp
qed

text \<open>
  Claim C2 does not hold as stated.  After \<open>RAM_BUFFER_CAPACITY\<close> pushes into
  the empty queue and one more, the file holds only the first
  \<open>RAM_BUFFER_CAPACITY - 1\<close> strings and RAM holds two strings, not one: the
  ring keeps one slot free, so the spill already happens at the push number
  \<open>RAM_BUFFER_CAPACITY\<close>.
\<close>

theorem spill_at_capacity_counterexample:
  "map_option (queue_view ''q'' \<circ> snd)
     (run ok_env ''q'' (map Push (replicate 10000 ''a'' @ [''b''])) init_world) =
   Some ([''a'', ''b''], Some (lines_of (replicate 9999 ''a'')))"
proof -
  have env: "strdup_ok ok_env" "fopen_a_ok ok_env" "write_limit ok_env = None"
    by (simp_all add: ok_env_def)
  have e: "is_ram_empty init_world"
    by (simp add: is_ram_empty_def init_world_def)
  have len: "length (replicate 9999 ''a'') = RAM_BUFFER_CAPACITY - 1"
    by (simp add: RAM_BUFFER_CAPACITY_def)
  from run_pushes_spill [OF ram_inv_init(2) e len env, of "''q''" "''a''"] obtain s1 where
    s1: "run ok_env ''q'' (map Push (replicate 9999 ''a'' @ [''a''])) init_world =
           Some (replicate RAM_BUFFER_CAPACITY (Pushed 0), s1)"
      "ram_inv s1" "ram_items s1 = [''a'']"
      "files s1 = (files init_world)(''q'' \<mapsto> file_bytes init_world ''q'' @ lines_of (replicate 9999 ''a''))"
    by blast
  have "ram_count s1 = 1"
    using s1(3) length_ram_items [of s1] by simp
  then have nf: "\<not> is_ram_full s1"
    using s1(2) by (simp add: full_iff_count RAM_BUFFER_CAPACITY_def)
  have push: "ultraqueue_push ok_env ''q'' ''b'' s1 = Some (0, push_slot ''b'' s1)"
    using nf env(1) by (rule push_direct)
  have items: "ram_items (push_slot ''b'' s1) = [''a'', ''b'']"
    using push_slot_items [OF s1(2) nf, of "''b''"] s1(3) by simp
  have calls: "map Push (replicate 10000 ''a'' @ [''b'']) =
      map Push (replicate 9999 ''a'' @ [''a'']) @ [Push ''b'']"
    by (simp add: replicate_cap)
  have "run ok_env ''q'' (map Push (replicate 10000 ''a'' @ [''b''])) init_world =
      Some (replicate RAM_BUFFER_CAPACITY (Pushed 0) @ [Pushed 0], push_slot ''b'' s1)"
    unfolding calls by (rule run_then [OF s1(1) run_push1 [OF push]])
  then show ?thesis
    using items s1(4) by (simp add: queue_view_def file_bytes_def init_world_def)
qed

text \<open>
  Claim C2, amended.  Pushing exactly \<open>RAM_BUFFER_CAPACITY - 1\<close> strings into
  an empty queue with no disk file and then one more appends all
  \<open>RAM_BUFFER_CAPACITY - 1\<close> prior strings to the disk file in their order of
  arrival, leaves RAM holding only the newest string, and makes
  \<open>ultraqueue_len\<close> equal to \<open>RAM_BUFFER_CAPACITY\<close>.
\<close>

theorem spill_when_ring_is_full:
  assumes "ram_inv s" "is_ram_empty s" "files s p = None"
    and "length xs = RAM_BUFFER_CAPACITY - 1" "\<forall>x\<in>set xs. newline \<notin> set x"
    and "strdup_ok env" "fopen_a_ok env" "write_limit env = None" "fopen_r_ok env"
  shows "\<exists>s'. run env p (map Push (xs @ [y])) s =
             Some (replicate RAM_BUFFER_CAPACITY (Pushed 0), s') \<and>
           files s' = (files s)(p \<mapsto> lines_of xs) \<and> ram_items s' = [y] \<and>
           ultraqueue_len env p s' = int RAM_BUFFER_CAPACITY"
proof -
  from run_pushes_spill [OF assms(1,2,4,6,7,8), of p y] obtain s' where
    s': "run env p (map Push (xs @ [y])) s = Some (replicate RAM_BUFFER_CAPACITY (Pushed 0), s')"
      "ram_items s' = [y]" "files s' = (files s)(p \<mapsto> file_bytes s p @ lines_of xs)"
    by blast
  have f: "files s' = (files s)(p \<mapsto> lines_of xs)"
    using s'(3) assms(3) by (simp add: file_bytes_def)
  have "ram_count s' = 1"
    using s'(2) length_ram_items [of s'] by simp
  then have "ultraqueue_len env p s' = int RAM_BUFFER_CAPACITY"
    using f assms(4,5,9) cap_pos by (simp add: ultraqueue_len_def count_lines_of)
  then show ?thesis
    using s'(1,2) f by simp
qed

theorem spill_when_ring_is_full_witness:
  "\<exists>s'. run ok_env ''q'' (map Push (replicate 9999 ''a'' @ [''b''])) init_world =
           Some (replicate 10000 (Pushed 0), s') \<and>
         files s' = (files init_world)(''q'' \<mapsto> lines_of (replicate 9999 ''a'')) \<and>
         ram_items s' = [''b''] \<and> ultraqueue_len ok_env ''q'' s' = 10000"
proof -
  have i: "ram_inv init_world"
    by simp
  have h: "is_ram_empty init_world" "files init_world ''q'' = None"
    "length (replicate 9999 ''a'') = RAM_BUFFER_CAPACITY - 1"
    "\<forall>x\<in>set (replicate 9999 ''a''). newline \<notin> set x"
    "strdup_ok ok_env" "fopen_a_ok ok_env" "write_limit ok_env = None" "fopen_r_ok ok_env"
    by (simp_all add: RAM_BUFFER_CAPACITY_def ok_env_def is_ram_empty_def init_world_def newline_def)
  show ?thesis
    using spill_when_ring_is_full [OF i h, of "''b''"] by (simp add: RAM_BUFFER_CAPACITY_def)
qed

subsection \<open>Order of pops across the two tiers\<close>

lemma empty_items: "ram_inv s \<Longrightarrow> ram_items s = [] \<Longrightarrow> is_ram_empty s"
  using length_ram_items [of s] by (simp add: empty_iff_count)

text \<open>
  Claim C1 does not hold as stated.  Push \<open>a\<close>, then 9998 further strings,
  then \<open>b\<close> and \<open>c\<close>: the push of \<open>b\<close> finds the ring full and spills \<open>a\<close>
  and the 9998 strings after it to the file.  The next two pops return \<open>b\<close>
  and \<open>c\<close>, the newer strings in RAM, while the older \<open>a\<close> stays on disk.
\<close>

theorem fifo_across_tiers_counterexample:
  "map_option fst
     (run ok_env ''q''
        (map Push (''a'' # replicate 9998 ''f'' @ [''b'', ''c'']) @ [Pop 8, Pop 8]) init_world) =
   Some (replicate 10001 (Pushed 0) @ [Popped 0 (Some ''b''), Popped 0 (Some ''c'')])"
proof -
  let ?xs = "''a'' # replicate 9998 ''f''"
  have env: "strdup_ok ok_env" "fopen_a_ok ok_env" "write_limit ok_env = None"
    by (simp_all add: ok_env_def)
  have e: "is_ram_empty init_world"
    by (simp add: is_ram_empty_def init_world_def)
  have len: "length ?xs = RAM_BUFFER_CAPACITY - 1"
    by (simp add: RAM_BUFFER_CAPACITY_def)
  from run_pushes_spill [OF ram_inv_init(2) e len env, of "''q''" "''b''"] obtain s1 where
    s1: "run ok_env ''q'' (map Push (?xs @ [''b''])) init_world =
           Some (replicate RAM_BUFFER_CAPACITY (Pushed 0), s1)"
      "ram_inv s1" "ram_items s1 = [''b'']"
    by blast
  have "ram_count s1 = 1"
    using s1(3) length_ram_items [of s1] by simp
  then have nf: "\<not> is_ram_full s1"
    using s1(2) by (simp add: full_iff_count RAM_BUFFER_CAPACITY_def)
  let ?s2 = "push_slot ''c'' s1"
  have push: "ultraqueue_push ok_env ''q'' ''c'' s1 = Some (0, ?s2)"
    using nf env(1) by (rule push_direct)
  have s2: "ram_inv ?s2" "ram_items ?s2 = [''b'', ''c'']"
    using push_slot_inv [OF s1(2) nf, of "''c''"] push_slot_items [OF s1(2) nf, of "''c''"] s1(3)
    by simp_all
  from pop_truncates [OF s2, of 8 ok_env "''q''"] obtain s3 where
    s3: "ultraqueue_pop ok_env ''q'' 8 ?s2 = Some (0, Some ''b'', s3)"
      "ram_inv s3" "ram_items s3 = [''c'']"
    by auto
  from pop_truncates [OF s3(2,3), of 8 ok_env "''q''"] obtain s4 where
    s4: "ultraqueue_pop ok_env ''q'' 8 s3 = Some (0, Some ''c'', s4)"
    by auto
  have calls: "map Push (''a'' # replicate 9998 ''f'' @ [''b'', ''c'']) @ [Pop 8, Pop 8] =
      map Push (?xs @ [''b'']) @ [Push ''c''] @ [Pop 8] @ [Pop 8]"
    by simp
  have "run ok_env ''q''
      (map Push (''a'' # replicate 9998 ''f'' @ [''b'', ''c'']) @ [Pop 8, Pop 8]) init_world =
      Some (replicate RAM_BUFFER_CAPACITY (Pushed 0) @ [Pushed 0] @ [Popped 0 (Some ''b'')]
              @ [Popped 0 (Some ''c'')], s4)"
    unfolding calls
    by (rule run_then [OF s1(1) run_then [OF run_push1 [OF push]
          run_then [OF run_pop1 [OF s3(1)] run_pop1 [OF s4]]]])
  moreover have "replicate 10001 (Pushed 0) = replicate 10000 (Pushed 0) @ [Pushed 0]"
    by (simp only: replicate_append_same replicate_Suc [symmetric]) simp
  ultimately show ?thesis
    by (simp add: RAM_BUFFER_CAPACITY_def)
qed

text \<open>
  Claim C1, amended.  When the older string \<open>a\<close> is on disk and the newer
  strings \<open>b\<close>, \<open>c\<close> are in RAM, the next two pops return \<open>b\<close> and then \<open>c\<close>;
  \<open>a\<close> is returned by the pop after them, once RAM is empty.  Pops are in
  arrival order inside each tier, and the RAM tier is served before the disk
  tier.
\<close>

theorem pop_serves_ram_first:
  assumes "ram_inv s" "ram_items s = [b, c]" "files s p = Some (lines_of [a])"
    and "fopen_r_ok env" "tmpfile_ok env" "fopen_w_ok env"
    and "newline \<notin> set a" "NUL \<notin> set a" "length a < MAX_LINE - 1"
    and "length a < n" "length b < n" "length c < n"
  shows "\<exists>s'. run env p [Pop n, Pop n, Pop n] s =
             Some ([Popped 0 (Some b), Popped 0 (Some c), Popped 0 (Some a)], s') \<and>
           ram_items s' = [] \<and> files s' p = Some []"
proof -
  have n: "0 < n" using assms(10) by simp
  from pop_truncates [OF assms(1,2) n, of env p] obtain s1 where
    s1: "ultraqueue_pop env p n s = Some (0, Some b, s1)"
      "ram_inv s1" "ram_items s1 = [c]" "files s1 = files s"
    using assms(11) by auto
  from pop_truncates [OF s1(2,3) n, of env p] obtain s2 where
    s2: "ultraqueue_pop env p n s1 = Some (0, Some c, s2)"
      "ram_inv s2" "ram_items s2 = []" "files s2 = files s"
    using assms(12) s1(4) by auto
  have e: "is_ram_empty s2"
    using s2(2,3) by (rule empty_items)
  have f: "files s2 p = Some (a @ newline # [])"
    using s2(4) assms(3) by (simp add: lines_of_def)
  have "ultraqueue_pop env p n s2 =
      Some (0, Some (take (n - 1) a), s2\<lparr>files := (files s2)(p \<mapsto> [])\<rparr>)"
    using pop_disk_line [OF e assms(4,5,6) f n assms(7,8) _ assms(9)] by simp
  then have s3: "ultraqueue_pop env p n s2 = Some (0, Some a, s2\<lparr>files := (files s2)(p \<mapsto> [])\<rparr>)"
    using assms(10) by simp
  show ?thesis
    using s1(1) s2(1,3) s3 by simp
qed

theorem pop_serves_ram_first_witness:
  "\<exists>s'. run ok_env ''q'' [Pop 8, Pop 8, Pop 8]
           \<lparr>ram_buffer = (\<lambda>i. None)(0 \<mapsto> ''b'', 1 \<mapsto> ''c''), ram_start = 0, ram_end = 2,
            files = (\<lambda>p. None)(''q'' \<mapsto> lines_of [''a''])\<rparr> =
           Some ([Popped 0 (Some ''b''), Popped 0 (Some ''c''), Popped 0 (Some ''a'')], s') \<and>
         ram_items s' = [] \<and> files s' ''q'' = Some []"
proof -
  let ?s = "\<lparr>ram_buffer = (\<lambda>i. None)(0 \<mapsto> ''b'', 1 \<mapsto> ''c''), ram_start = 0, ram_end = 2,
            files = (\<lambda>p. None)(''q'' \<mapsto> lines_of [''a''])\<rparr>"
  have c: "ram_count ?s = 2"
    by (simp add: ram_count_def RAM_BUFFER_CAPACITY_def)
  have i: "ram_inv ?s"
    unfolding ram_inv_def c by (auto simp: RAM_BUFFER_CAPACITY_def)
  have "[0..<2] = [0, Suc 0]"
    by (simp add: upt_rec)
  then have items: "ram_items ?s = [''b'', ''c'']"
    unfolding ram_items_def c by (simp add: RAM_BUFFER_CAPACITY_def)
  have h: "fopen_r_ok ok_env" "tmpfile_ok ok_env" "fopen_w_ok ok_env"
    "newline \<notin> set ''a''" "NUL \<notin> set ''a''" "length ''a'' < MAX_LINE - 1"
    "length ''a'' < 8" "length ''b'' < 8" "length ''c'' < 8"
    by (simp_all add: ok_env_def newline_def NUL_def MAX_LINE_def)
  show ?thesis
    using pop_serves_ram_first [OF i items _ h, of "''q''"] by simp
qed

subsection \<open>The ring invariant\<close>

lemma ram_used_count:
  assumes "ram_inv s"
  shows "ram_used s = ram_count s"
proof -
  define n where "n = RAM_BUFFER_CAPACITY"
  define c where "c = ram_count s"
  define pos where "pos = (\<lambda>i. (i + n - ram_start s) mod n)"
  define slot where "slot = (\<lambda>k. (ram_start s + k) mod n)"
  have b: "ram_start s < n"
    using assms by (simp add: ram_inv_def n_def)
  have cn: "c < n"
    using ram_count_less [of s] by (simp add: c_def n_def)
  have slot_pos: "slot (pos i) = i" if "i < n" for i
    unfolding slot_def pos_def using b that by (rule ring_slot)
  have pos_slot: "pos (slot k) = k" if "k < n" for k
    unfolding slot_def pos_def using b that by (rule ring_pos)
  have slot_less: "slot k < n" for k
    using b by (simp add: slot_def)
  have inv: "(ram_buffer s i \<noteq> None) = (pos i < c)" if "i < n" for i
    using assms that by (simp add: ram_inv_def n_def c_def pos_def)
  have "filter (\<lambda>i. ram_buffer s i \<noteq> None) [0..<n] = filter (\<lambda>i. pos i < c) [0..<n]"
    by (rule filter_cong) (use inv in auto)
  then have "ram_used s = card ({i. pos i < c} \<inter> set [0..<n])"
    by (simp add: ram_used_def n_def distinct_length_filter)
  also have "{i. pos i < c} \<inter> set [0..<n] = slot ` {..<c}"
  proof (intro set_eqI iffI)
    fix i assume "i \<in> {i. pos i < c} \<inter> set [0..<n]"
    then have i: "i < n" "pos i < c" by simp_all
    show "i \<in> slot ` {..<c}"
      using i(2) slot_pos [OF i(1)] by (intro image_eqI [where x = "pos i"]) simp_all
  next
    fix i assume "i \<in> slot ` {..<c}"
    then obtain k where k: "k < c" "i = slot k" by auto
    then have "k < n" using cn by simp
    then have "pos (slot k) = k" by (rule pos_slot)
    then show "i \<in> {i. pos i < c} \<inter> set [0..<n]"
      using k slot_less [of k] by simp
  qed
  also have "card (slot ` {..<c}) = card {..<c}"
  proof (rule card_image, rule inj_onI)
    fix k k' assume "k \<in> {..<c}" "k' \<in> {..<c}" and eq: "slot k = slot k'"
    then have "k < n" "k' < n" using cn by simp_all
    then have "pos (slot k) = k" "pos (slot k') = k'"
      by (simp_all add: pos_slot)
    with eq show "k = k'" by metis
  qed
  finally show ?thesis by (simp add: c_def)
qed

lemma push_total_inv:
  assumes "ram_inv s"
  shows "\<exists>r s'. ultraqueue_push env p item s = Some (r, s') \<and> ram_inv s'"
proof (cases "is_ram_full s")
  case False
  then show ?thesis
    using assms push_slot_inv [OF assms False, of item]
    by (cases "strdup_ok env") (simp_all add: ultraqueue_push_def push_ram_def push_slot_def)
next
  case True
  show ?thesis
  proof (cases "fopen_a_ok env")
    case False
    then show ?thesis
      using True assms by (simp add: ultraqueue_push_def push_ram_full spill_to_disk_def)
  next
    case ok: True
    obtain r k bytes where tr: "spill_trace (call_limit env) (ram_items s) = (r, k, bytes)"
      by (cases "spill_trace (call_limit env) (ram_items s)") auto
    from spill_to_disk_trace [OF assms ok tr, of p] obtain s2 where
      s2: "spill_to_disk env p s = Some (r, s2)" "ram_inv s2"
        "r = 0 \<longrightarrow> ram_start s2 = 0 \<and> ram_end s2 = 0"
      by blast
    show ?thesis
    proof (cases "r = 0")
      case False
      then show ?thesis
        using True s2 by (simp add: ultraqueue_push_def push_ram_full)
    next
      case r0: True
      then have nf: "\<not> is_ram_full s2"
        using s2(3) by (simp add: not_full_reset)
      have "ram_inv (snd (push_ram env item s2))"
        using s2(2) push_slot_inv [OF s2(2) nf, of item]
        by (cases "strdup_ok env") (simp_all add: push_ram_def push_slot_def nf)
      then show ?thesis
        using True s2(1) r0 by (cases "push_ram env item s2") (simp add: ultraqueue_push_def push_ram_full)
    qed
  qed
qed

lemma pop_inv:
  assumes "ram_inv s" "ultraqueue_pop env p b s = Some (r, out, s')"
  shows "ram_inv s'"
proof (cases "is_ram_empty s")
  case True
  then show ?thesis
    using assms
    by (auto simp: ultraqueue_pop_def pop_ram_empty split: if_splits option.splits)
next
  case False
  then have "0 < b"
    using assms head_slot [OF assms(1) False]
    by (cases b) (simp_all add: ultraqueue_pop_def pop_ram_def copy_out_def)
  then show ?thesis
    using assms pop_from_ram [OF assms(1) False, of b env p] pop_slot_inv [OF assms(1) False]
    by simp
qed

lemma pop_scan_total: "0 < b \<Longrightarrow> \<exists>found out temp. pop_scan b fp False None [] = Some (found, out, temp)"
  by (cases "fp = []") (auto simp: pop_scan_eof pop_scan_first)

lemma pop_total:
  assumes "ram_inv s" "0 < b"
  shows "\<exists>r out s'. ultraqueue_pop env p b s = Some (r, out, s')"
proof (cases "is_ram_empty s")
  case True
  obtain found out temp where "pop_scan b (file_bytes s p) False None [] = Some (found, out, temp)"
    using pop_scan_total [OF assms(2)] by blast
  then show ?thesis
    using True by (simp add: ultraqueue_pop_def pop_ram_empty file_bytes_def split: option.splits)
next
  case False
  then show ?thesis
    using pop_from_ram [OF assms(1) False assms(2)] by simp
qed

text \<open>
  Claim C7.  The invariant \<open>ram_inv\<close> (both cursors inside the array, the
  slots holding a string exactly those from \<open>ram_start\<close> up to \<open>ram_end\<close>)
  holds in the initial state (\<open>ram_inv_init\<close>) and is kept by every push and
  every pop, whatever the environment does; \<open>ultraqueue_len\<close> does not change
  the state.  Under it \<open>ram_start = ram_end\<close> holds exactly when no
  slot is used, \<open>(ram_end + 1) mod RAM_BUFFER_CAPACITY = ram_start\<close> exactly
  when \<open>RAM_BUFFER_CAPACITY - 1\<close> slots are used, and never more slots than
  that are used.
\<close>

theorem ring_buffer_invariant:
  assumes "ram_inv s"
  shows "(is_ram_empty s \<longleftrightarrow> ram_used s = 0) \<and>
         (is_ram_full s \<longleftrightarrow> ram_used s = RAM_BUFFER_CAPACITY - 1) \<and>
         ram_used s \<le> RAM_BUFFER_CAPACITY - 1 \<and>
         ram_used s = length (ram_items s) \<and>
         (\<forall>env p item. \<exists>r s'. ultraqueue_push env p item s = Some (r, s') \<and> ram_inv s') \<and>
         (\<forall>env p b. 0 < b \<longrightarrow> (\<exists>r out s'. ultraqueue_pop env p b s = Some (r, out, s'))) \<and>
         (\<forall>env p b r out s'. ultraqueue_pop env p b s = Some (r, out, s') \<longrightarrow> ram_inv s')"
proof (intro conjI allI impI)
  show "is_ram_empty s \<longleftrightarrow> ram_used s = 0"
    using assms by (simp add: ram_used_count empty_iff_count)
  show "is_ram_full s \<longleftrightarrow> ram_used s = RAM_BUFFER_CAPACITY - 1"
    using assms by (simp add: ram_used_count full_iff_count)
  show "ram_used s \<le> RAM_BUFFER_CAPACITY - 1"
    using assms ram_count_less [of s] by (simp add: ram_used_count)
  show "ram_used s = length (ram_items s)"
    using assms by (simp add: ram_used_count)
  show "\<exists>r s'. ultraqueue_push env p item s = Some (r, s') \<and> ram_inv s'" for env p item
    using assms by (rule push_total_inv)
  show "\<exists>r out s'. ultraqueue_pop env p b s = Some (r, out, s')" if "0 < b" for env p b
    using assms that by (rule pop_total)
  show "ram_inv s'" if "ultraqueue_pop env p b s = Some (r, out, s')" for env p b r out s'
    using assms that by (rule pop_inv)
qed

theorem ring_buffer_invariant_witness:
  "ram_inv init_world \<and> is_ram_empty init_world \<and> ram_used init_world = 0 \<and>
   \<not> is_ram_full init_world \<and>
   (\<exists>r s'. ultraqueue_push ok_env ''q'' ''a'' init_world = Some (r, s') \<and> ram_inv s')"
proof -
  have i: "ram_inv init_world"
    by simp
  have e: "is_ram_empty init_world" "\<not> is_ram_full init_world"
    using cap_pos by (simp_all add: is_ram_empty_def is_ram_full_def init_world_def)
  show ?thesis
    using ring_buffer_invariant [OF i] i e by simp
qed

subsection \<open>Length when the file cannot be opened\<close>

text \<open>
  Claim C9.  \<open>ultraqueue_len\<close> has no error result.  When the file cannot be
  opened it returns the number of slots of the ring that hold a string, which
  is the number of strings in RAM, and nothing for the disk tier: the same
  number it returns when the file is missing and when the file is empty.  The
  result is never negative.
\<close>

theorem len_hides_open_failure:
  assumes "ram_inv s" "\<not> fopen_r_ok env"
  shows "ultraqueue_len env p s = int (ram_used s) \<and>
         ultraqueue_len env p s = int (length (ram_items s)) \<and>
         ultraqueue_len env p s = ultraqueue_len env' p (s\<lparr>files := (files s)(p := None)\<rparr>) \<and>
         ultraqueue_len env p s = ultraqueue_len env' p (s\<lparr>files := (files s)(p \<mapsto> [])\<rparr>) \<and>
         0 \<le> ultraqueue_len env p s"
  using assms by (simp add: ultraqueue_len_def ram_used_count)

theorem len_hides_open_failure_witness:
  "ultraqueue_len (ok_env\<lparr>fopen_r_ok := False\<rparr>) ''q''
     \<lparr>ram_buffer = (\<lambda>i. None)(0 \<mapsto> ''b'', 1 \<mapsto> ''c''), ram_start = 0, ram_end = 2,
      files = (\<lambda>p. None)(''q'' \<mapsto> lines_of [''a'', ''d'', ''e''])\<rparr> = 2 \<and>
   ram_used
     \<lparr>ram_buffer = (\<lambda>i. None)(0 \<mapsto> ''b'', 1 \<mapsto> ''c''), ram_start = 0, ram_end = 2,
      files = (\<lambda>p. None)(''q'' \<mapsto> lines_of [''a'', ''d'', ''e''])\<rparr> = 2 \<and>
   ultraqueue_len ok_env ''q''
     \<lparr>ram_buffer = (\<lambda>i. None)(0 \<mapsto> ''b'', 1 \<mapsto> ''c''), ram_start = 0, ram_end = 2,
      files = (\<lambda>p. None)(''q'' \<mapsto> lines_of [''a'', ''d'', ''e''])\<rparr> = 5"
proof -
  let ?s = "\<lparr>ram_buffer = (\<lambda>i. None)(0 \<mapsto> ''b'', 1 \<mapsto> ''c''), ram_start = 0, ram_end = 2,
      files = (\<lambda>p. None)(''q'' \<mapsto> lines_of [''a'', ''d'', ''e''])\<rparr>"
  let ?env = "ok_env\<lparr>fopen_r_ok := False\<rparr>"
  have c: "ram_count ?s = 2"
    by (simp add: ram_count_def RAM_BUFFER_CAPACITY_def)
  have i: "ram_inv ?s"
    unfolding ram_inv_def c by (auto simp: RAM_BUFFER_CAPACITY_def)
  have e: "\<not> fopen_r_ok ?env"
    by simp
  have closed: "ultraqueue_len ?env ''q'' ?s = 2"
    using c by (simp add: ultraqueue_len_def)
  have "ultraqueue_len ?env ''q'' ?s = int (ram_used ?s)"
    using len_hides_open_failure [OF i e, of "''q''" ok_env] by simp
  then have "ram_used ?s = 2"
    using closed by simp
  moreover have "ultraqueue_len ok_env ''q'' ?s = 5"
    using c by (simp add: ultraqueue_len_def ok_env_def lines_of_def newline_def)
  ultimately show ?thesis
    using closed by simp
qed

subsection \<open>A push whose spill fails\<close>

text \<open>
  When the ring is full and \<open>spill_to_disk\<close> reports a failure (the file
  cannot be opened for appending, or a call of \<open>fputs\<close>/\<open>fputc\<close> returns
  \<open>EOF\<close>), the push returns the code of the spill, \<open>-1\<close>, \<open>-2\<close> or \<open>-3\<close>,
  and ends in the state the spill left.  The new string is stored nowhere:
  RAM holds a suffix of the strings it held before, and the file has grown by
  a prefix of the lines of those strings.
\<close>

lemma spill_error_is_returned:
  assumes "ram_inv s" "is_ram_full s"
    and "\<not> fopen_a_ok env \<or> (\<exists>n. call_limit env = Some n \<and> n < 2 * ram_count s)"
  shows "\<exists>r s' k j. ultraqueue_push env p item s = Some (r, s') \<and>
           spill_to_disk env p s = Some (r, s') \<and>
           (r = - 1 \<or> r = - 2 \<or> r = - 3) \<and>
           k < ram_count s \<and> ram_items s' = drop k (ram_items s) \<and>
           file_bytes s' p = file_bytes s p @ take j (lines_of (ram_items s)) \<and>
           (\<forall>q. q \<noteq> p \<longrightarrow> files s' q = files s q)"
proof (cases "fopen_a_ok env")
  case False
  have "0 < ram_count s"
    using assms(1,2) cap_pos by (simp add: full_iff_count)
  moreover have "spill_to_disk env p s = Some (- 1, s)"
    using False by (simp add: spill_to_disk_def)
  moreover have "ultraqueue_push env p item s = Some (- 1, s)"
    using False assms(2) by (simp add: ultraqueue_push_def push_ram_full spill_to_disk_def)
  ultimately show ?thesis
    by (intro exI [where x = "- 1"] exI [where x = s] exI [where x = 0]) simp
next
  case ok: True
  with assms(3) obtain n where n: "call_limit env = Some n" "n < 2 * length (ram_items s)"
    by auto
  then obtain m where m: "write_limit env = Some (n, m)"
    by (auto simp: call_limit_def)
  obtain r k bytes where tr: "spill_trace (Some n) (ram_items s) = (r, k, bytes)"
    by (cases "spill_trace (Some n) (ram_items s)") auto
  from spill_trace_fail [OF n(2) tr]
  have f: "r = - 2 \<or> r = - 3" "k < length (ram_items s)"
    by simp_all
  from spill_trace_prefix [OF tr] obtain rest where
    rest: "lines_of (ram_items s) = bytes @ rest"
    by blast
  have "reaches_disk env bytes = take m bytes"
    using m by (simp add: reaches_disk_def)
  also have "\<dots> = take (min m (length bytes)) (lines_of (ram_items s))"
    unfolding rest by (simp add: min_def)
  finally have reach: "reaches_disk env bytes = take (min m (length bytes)) (lines_of (ram_items s))" .
  from spill_to_disk_trace [OF assms(1) ok, of r k bytes p] tr n(1) obtain s' where
    s': "spill_to_disk env p s = Some (r, s')" "ram_items s' = drop k (ram_items s)"
      "files s' = (files s)(p \<mapsto> file_bytes s p @ reaches_disk env bytes)"
    by auto
  have "r \<noteq> 0" using f(1) by auto
  then have "ultraqueue_push env p item s = Some (r, s')"
    using assms(2) s'(1) by (simp add: ultraqueue_push_def push_ram_full)
  moreover have "file_bytes s' p =
      file_bytes s p @ take (min m (length bytes)) (lines_of (ram_items s))"
    using s'(3) reach by (simp add: file_bytes_def)
  moreover have "\<forall>q. q \<noteq> p \<longrightarrow> files s' q = files s q"
    using s'(3) by simp
  ultimately show ?thesis
    using s'(1,2) f
    by (intro exI [where x = r] exI [where x = s'] exI [where x = k]
          exI [where x = "min m (length bytes)"]) simp
qed

lemma length_lines_replicate: "length (lines_of (replicate n x)) = n * Suc (length x)"
  by (induction n) (simp_all add: lines_of_def)

text \<open>
  Claim C4 at a write error that no call reports.  Fill the ring with 9999
  pushes of \<open>a\<close> and push \<open>new\<close>, on a disk that takes the first 16384 of
  the 19998 bytes of the spill and refuses the rest when the stream is
  flushed inside \<open>fclose\<close>.  Every \<open>fputs\<close> and \<open>fputc\<close> has succeeded and
  the result of \<open>fclose\<close> is dropped, so \<open>spill_to_disk\<close> returns 0: the push
  clears the ring, stores \<open>new\<close> in RAM and returns 0, although the spill
  met a write error and the file lacks the last 3614 bytes.
\<close>

theorem push_after_lost_flush:
  "map_option fst
     (run (ok_env\<lparr>write_limit := Some (19998, 16384)\<rparr>) ''q''
        (map Push (replicate 9999 ''a'' @ [''new''])) init_world) =
     Some (replicate 10000 (Pushed 0)) \<and>
   map_option (queue_view ''q'' \<circ> snd)
     (run (ok_env\<lparr>write_limit := Some (19998, 16384)\<rparr>) ''q''
        (map Push (replicate 9999 ''a'' @ [''new''])) init_world) =
     Some ([''new''], Some (take 16384 (lines_of (replicate 9999 ''a'')))) \<and>
   length (lines_of (replicate 9999 ''a'')) = 19998"
proof -
  let ?env = "ok_env\<lparr>write_limit := Some (19998, 16384)\<rparr>"
  have env: "strdup_ok ?env" "fopen_a_ok ?env"
    by (simp_all add: ok_env_def)
  have e: "is_ram_empty init_world"
    by (simp add: is_ram_empty_def init_world_def)
  have len: "length (replicate 9999 ''a'') = RAM_BUFFER_CAPACITY - 1"
    by (simp add: RAM_BUFFER_CAPACITY_def)
  have lim: "call_limit ?env = None \<or>
      (\<exists>n. call_limit ?env = Some n \<and> 2 * length (replicate 9999 ''a'') \<le> n)"
    by (simp add: call_limit_def)
  from run_pushes_flush [OF ram_inv_init(2) e len env lim, of "''q''" "''new''"] obtain s' where
    s': "run ?env ''q'' (map Push (replicate 9999 ''a'' @ [''new''])) init_world =
           Some (replicate RAM_BUFFER_CAPACITY (Pushed 0), s')"
      "ram_items s' = [''new'']"
      "files s' = (files init_world)(''q'' \<mapsto>
         file_bytes init_world ''q'' @ reaches_disk ?env (lines_of (replicate 9999 ''a'')))"
    by blast
  have "reaches_disk ?env (lines_of (replicate 9999 ''a'')) =
      take 16384 (lines_of (replicate 9999 ''a''))"
    by (simp add: reaches_disk_def)
  moreover have "file_bytes init_world ''q'' = []"
    by (simp add: file_bytes_def init_world_def)
  ultimately have "files s' ''q'' = Some (take 16384 (lines_of (replicate 9999 ''a'')))"
    using s'(3) by simp
  then show ?thesis
    using s'(1,2) by (simp add: queue_view_def RAM_BUFFER_CAPACITY_def length_lines_replicate)
qed

end
